theory Spec2Isabelle
  imports Main "HOL-Library.Multiset"
begin

section \<open>JavaScript primitives used by the functions\<close>

text \<open>
  Buffers are lists of \<^typ>\<open>char\<close>, one per byte. The strings of the requests (JSON
  fields, header values, object keys) are lists of \<^typ>\<open>char\<close> too, one per code unit.
  A text decoded from the bytes of a payload can hold any UTF-16 code unit: it is a list
  of integers, a \<open>jsstring\<close>, and \<open>js\<close> gives the code units of a literal.
  The functions below are the library calls of the sources,
  with the behaviour of Node.js written out: \<open>indexOf\<close> gives \<open>None\<close> where
  JavaScript gives \<open>-1\<close> (the sources search for non-empty patterns from offsets that
  are not negative), \<open>slice\<close> takes the signed bounds of \<open>Buffer.slice\<close> and
  \<open>String.slice\<close> (a negative bound counts from the end, every bound is clamped).
\<close>

type_synonym jsstring = "int list"

definition js :: "string \<Rightarrow> jsstring" where
  "js s = map of_char s"

fun find_from :: "'a list \<Rightarrow> 'a list \<Rightarrow> nat \<Rightarrow> nat option" where
  "find_from pat [] k = (if pat = [] then Some k else None)"
| "find_from pat (x # xs) k =
     (if take (length pat) (x # xs) = pat then Some k else find_from pat xs (Suc k))"

definition indexOf :: "'a list \<Rightarrow> 'a list \<Rightarrow> nat \<Rightarrow> nat option" where
  "indexOf buf pat byteOffset =
     (if length buf < byteOffset then None
      else find_from pat (drop byteOffset buf) byteOffset)"

definition slice :: "'a list \<Rightarrow> int \<Rightarrow> int \<Rightarrow> 'a list" where
  "slice buf start stop =
     (let n = int (length buf);
          s = (if start < 0 then max (n + start) 0 else min start n);
          e = (if stop < 0 then max (n + stop) 0 else min stop n)
      in take (nat (e - s)) (drop (nat s) buf))"

definition startsWith :: "'a list \<Rightarrow> 'a list \<Rightarrow> bool" where
  "startsWith s p = (take (length p) s = p)"

definition endsWith :: "'a list \<Rightarrow> 'a list \<Rightarrow> bool" where
  "endsWith s p = (length p \<le> length s \<and> drop (length s - length p) s = p)"

definition includes_str :: "string \<Rightarrow> string \<Rightarrow> bool" where
  "includes_str s p = (indexOf s p 0 \<noteq> None)"

definition lower_char :: "char \<Rightarrow> char" where
  "lower_char c =
     (let n = (of_char c :: nat) in if 65 \<le> n \<and> n \<le> 90 then char_of (n + 32) else c)"

definition toLowerCase :: "string \<Rightarrow> string" where
  "toLowerCase s = map lower_char s"

text \<open>
  \<open>toLowerCase\<close> maps the ASCII capitals and leaves every other code unit as it is. The
  sources compare the lowercased text with ASCII text only.
\<close>

text \<open>A value is falsy when it is \<open>undefined\<close>/\<open>null\<close> (\<open>None\<close>) or the empty string.\<close>

fun truthy :: "'a list option \<Rightarrow> bool" where
  "truthy None = False"
| "truthy (Some s) = (s \<noteq> [])"

text \<open>\<open>a || b\<close> on an optional string and a default.\<close>

fun or_else :: "'a list option \<Rightarrow> 'a list \<Rightarrow> 'a list" where
  "or_else None d = d"
| "or_else (Some s) d = (if s = [] then d else s)"

section \<open>Requests, responses and calls to the storage service\<close>

record config =
  R2_ACCOUNT_ID :: "string option"
  R2_ACCESS_KEY_ID :: "string option"
  R2_SECRET_ACCESS_KEY :: "string option"
  R2_BUCKET_NAME :: string

definition configured :: "config \<Rightarrow> bool" where
  "configured cfg =
     (truthy (R2_ACCOUNT_ID cfg) \<and> truthy (R2_ACCESS_KEY_ID cfg) \<and>
      truthy (R2_SECRET_ACCESS_KEY cfg))"

record uploaded_file =
  uf_filename :: jsstring
  uf_objectKey :: string
  uf_size :: nat

record gallery_item =
  gi_key :: string
  gi_url :: string
  gi_filename :: string
  gi_contributor :: string
  gi_size :: nat
  gi_lastModified :: string
  gi_isVideo :: bool
  gi_isHeic :: bool

text \<open>The JSON bodies the handlers build, one constructor per shape.\<close>

datatype json_body =
    NoBody
  | ErrorBody string
  | ErrorDetails string string
  | SkippedBody string string
  | UploadUrlBody string string nat
  | UploadedBody string "uploaded_file list"
  | GalleryBody "gallery_item list" nat

record response =
  statusCode :: nat
  resp_body :: json_body

definition respond :: "nat \<Rightarrow> json_body \<Rightarrow> response" where
  "respond code b = \<lparr>statusCode = code, resp_body = b\<rparr>"

text \<open>
  Every request a handler sends to the storage service or to the signer is recorded, in
  order, next to the response.
\<close>

datatype call =
    HeadObject string string
  | SignPutObject string string string
  | PutObject string string string jsstring
  | ListObjectsV2 string nat "string option"
  | SignGetObject string string

text \<open>
  The outcome of the metadata probe \<open>HeadObjectCommand\<close>: the object is there, the
  service answered that it is not, or the request failed for another reason (the message
  of the error thrown).
\<close>

datatype probe = ProbeExists | ProbeNotFound | ProbeFailed string

section \<open>Key resolution\<close>

definition safe_chars :: "char list" where
  "safe_chars =
     ''abcdefghijklmnopqrstuvwxyz'' @ ''ABCDEFGHIJKLMNOPQRSTUVWXYZ'' @ ''0123456789'' @ ''._-''"

definition safe_char :: "char \<Rightarrow> bool" where
  "safe_char c = (c \<in> set safe_chars)"

text \<open>\<open>filename.replace(/[^a-zA-Z0-9._-]/g, "_")\<close>\<close>

definition safeFilename :: "string \<Rightarrow> string" where
  "safeFilename filename = map (\<lambda>c. if safe_char c then c else CHR ''_'') filename"

text \<open>
  \<open>new Date().toISOString().replace(/[:.]/g, "-").slice(0, 19)\<close>; the argument is the
  ISO string of the clock at the call.
\<close>

definition timestamp :: "string \<Rightarrow> string" where
  "timestamp now =
     slice (map (\<lambda>c. if c = CHR '':'' \<or> c = CHR ''.'' then CHR ''-'' else c) now) 0 19"

definition hashKey :: "string \<Rightarrow> string \<Rightarrow> string" where
  "hashKey fileHash filename =
     ''Memorial_Guest_UPLOADS/'' @ fileHash @ ''_'' @ safeFilename filename"

definition timestampKey :: "string \<Rightarrow> string \<Rightarrow> string" where
  "timestampKey now filename =
     ''Memorial_Guest_UPLOADS/'' @ timestamp now @ ''_'' @ safeFilename filename"

text \<open>
  The key of the upload-credential handler: the hash when one is given (a truthy
  \<open>fileHash\<close>), the timestamp of the call otherwise.
\<close>

definition objectKey :: "string \<Rightarrow> string option \<Rightarrow> string \<Rightarrow> string" where
  "objectKey now fileHash filename =
     (if truthy fileHash then hashKey (or_else fileHash []) filename
      else timestampKey now filename)"

section \<open>The upload-credential handler\<close>

text \<open>
  The parsed JSON body. The fields are the strings of the interface
  (\<open>{filename, contentType, size, fileHash}\<close>), each optional; \<open>size\<close> is only logged.
\<close>

record upload_request =
  rq_filename :: "string option"
  rq_contentType :: "string option"
  rq_size :: "nat option"
  rq_fileHash :: "string option"

text \<open>
  The event: the method and the outcome of \<open>JSON.parse(event.body)\<close>, \<open>Inl\<close> with
  the message when it throws.
\<close>

record event =
  httpMethod :: string

record presign_event = event +
  parsed :: "string + upload_request"

text \<open>
  \<open>getSignedUrl(r2Client, new PutObjectCommand({Bucket, Key, ContentType}), {expiresIn: 3600})\<close>:
  the signer gives the URL or throws (\<open>Inl\<close> with the message). The result is the
  response with the calls made.
\<close>

definition issue ::
  "config \<Rightarrow> (string \<Rightarrow> string \<Rightarrow> string \<Rightarrow> string + string) \<Rightarrow> string \<Rightarrow>
   string option \<Rightarrow> call list \<Rightarrow> response \<times> call list" where
  "issue cfg sign key ctype calls =
     (let ct = or_else ctype ''application/octet-stream'';
          calls' = calls @ [SignPutObject (R2_BUCKET_NAME cfg) key ct]
      in case sign (R2_BUCKET_NAME cfg) key ct of
           Inl msg \<Rightarrow>
             (respond 500 (ErrorBody (''Failed to generate upload URL: '' @ msg)), calls')
         | Inr url \<Rightarrow> (respond 200 (UploadUrlBody url key 3600), calls'))"

definition presign_handler ::
  "config \<Rightarrow> (string \<Rightarrow> string \<Rightarrow> probe) \<Rightarrow>
   (string \<Rightarrow> string \<Rightarrow> string \<Rightarrow> string + string) \<Rightarrow> string \<Rightarrow> presign_event \<Rightarrow>
   response \<times> call list" where
  "presign_handler cfg head sign now ev =
     (if httpMethod ev = ''OPTIONS'' then (respond 200 NoBody, [])
      else if httpMethod ev \<noteq> ''POST'' then (respond 405 (ErrorBody ''Method not allowed''), [])
      else if \<not> configured cfg then (respond 500 (ErrorBody ''Storage not configured''), [])
      else case parsed ev of
        Inl msg \<Rightarrow> (respond 500 (ErrorBody (''Failed to generate upload URL: '' @ msg)), [])
      | Inr req \<Rightarrow>
          if \<not> truthy (rq_filename req) then (respond 400 (ErrorBody ''Filename is required''), [])
          else
            let fname = or_else (rq_filename req) [] in
            if truthy (rq_fileHash req) then
              let key = hashKey (or_else (rq_fileHash req) []) fname;
                  calls = [HeadObject (R2_BUCKET_NAME cfg) key]
              in case head (R2_BUCKET_NAME cfg) key of
                   ProbeExists \<Rightarrow> (respond 200 (SkippedBody key ''File already exists''), calls)
                 | ProbeNotFound \<Rightarrow> issue cfg sign key (rq_contentType req) calls
                 | ProbeFailed err \<Rightarrow> issue cfg sign key (rq_contentType req) calls
            else issue cfg sign (timestampKey now fname) (rq_contentType req) [])"


text \<open>
  The earlier version of the handler, without hashes: the key is always the timestamp
  key, and the storage service is not probed.
\<close>

definition presign_handler_timestamp ::
  "config \<Rightarrow> (string \<Rightarrow> string \<Rightarrow> string \<Rightarrow> string + string) \<Rightarrow> string \<Rightarrow> presign_event \<Rightarrow>
   response \<times> call list" where
  "presign_handler_timestamp cfg sign now ev =
     (if httpMethod ev = ''OPTIONS'' then (respond 200 NoBody, [])
      else if httpMethod ev \<noteq> ''POST'' then (respond 405 (ErrorBody ''Method not allowed''), [])
      else if \<not> configured cfg then (respond 500 (ErrorBody ''Storage not configured''), [])
      else case parsed ev of
        Inl msg \<Rightarrow> (respond 500 (ErrorBody (''Failed to generate upload URL: '' @ msg)), [])
      | Inr req \<Rightarrow>
          if \<not> truthy (rq_filename req) then (respond 400 (ErrorBody ''Filename is required''), [])
          else issue cfg sign (timestampKey now (or_else (rq_filename req) []))
                 (rq_contentType req) [])"

section \<open>The multipart parser\<close>

text \<open>
  Where \<open>indexOf\<close> finds the pattern, it finds it at or after the offset and wholly
  inside the buffer. The loop of the parser terminates by this.
\<close>

lemma find_from_bounds:
  "find_from pat xs k = Some j \<Longrightarrow> k \<le> j \<and> j + length pat \<le> k + length xs"
proof (induction xs arbitrary: k)
  case Nil
  then show ?case by (simp split: if_splits)
next
  case (Cons x xs)
  show ?case
  proof (cases "take (length pat) (x # xs) = pat")
    case True
    then have "length (take (length pat) (x # xs)) = length pat" by simp
    then have "length pat \<le> length (x # xs)" by simp
    with True Cons.prems show ?thesis by simp
  next
    case False
    with Cons.prems have "find_from pat xs (Suc k) = Some j" by simp
    from Cons.IH [OF this] show ?thesis by simp
  qed
qed

lemma indexOf_bounds:
  "indexOf buf pat off = Some j \<Longrightarrow> off \<le> j \<and> j + length pat \<le> length buf"
  unfolding indexOf_def
  by (auto split: if_splits dest!: find_from_bounds)

definition CRLF :: string where
  "CRLF = [CHR 0x0D, CHR 0x0A]"

definition dquote :: char where
  "dquote = CHR 0x22"

text \<open>
  \<open>Buffer.from(`--${boundary}`)\<close>: the UTF-8 bytes of the text. The boundary comes from
  a header value; a code unit from 128 to 255 takes two bytes.
\<close>

definition utf8_encode :: "string \<Rightarrow> string" where
  "utf8_encode s =
     concat (map (\<lambda>c. let n = (of_char c :: nat)
                      in if n < 128 then [c]
                         else [char_of (192 + n div 64), char_of (128 + n mod 64)]) s)"

definition boundaryBuffer :: "string \<Rightarrow> string" where
  "boundaryBuffer boundary = ''--'' @ utf8_encode boundary"

text \<open>
  The first loop of \<open>parseMultipart\<close>, entered with \<open>idx\<close> at an occurrence of the
  boundary: it looks for the next occurrence after this one, stops when there is none,
  and otherwise pushes the bytes between the two and goes on from the next.
\<close>

function collectParts :: "string \<Rightarrow> string \<Rightarrow> nat \<Rightarrow> string list" where
  "collectParts body boundary idx =
     (case indexOf body (boundaryBuffer boundary) (idx + length (boundaryBuffer boundary)) of
        None \<Rightarrow> []
      | Some nextIdx \<Rightarrow>
          slice body (int (idx + length (boundaryBuffer boundary))) (int nextIdx) #
          collectParts body boundary nextIdx)"
  by pat_completeness auto
termination
proof (relation "measure (\<lambda>(body, boundary, idx). Suc (length body) - idx)")
  show "wf (measure (\<lambda>(body, boundary, idx). Suc (length body) - idx))" by simp
next
  fix body boundary :: string and idx nextIdx :: nat
  assume "indexOf body (boundaryBuffer boundary) (idx + length (boundaryBuffer boundary)) =
          Some nextIdx"
  from indexOf_bounds [OF this]
  have "idx + length (boundaryBuffer boundary) \<le> nextIdx"
    and "nextIdx + length (boundaryBuffer boundary) \<le> length body" by simp_all
  moreover have "2 \<le> length (boundaryBuffer boundary)" by (simp add: boundaryBuffer_def)
  ultimately show "((body, boundary, nextIdx), (body, boundary, idx))
      \<in> measure (\<lambda>(body, boundary, idx). Suc (length body) - idx)" by simp
qed

declare collectParts.simps [simp del]

definition partsOf :: "string \<Rightarrow> string \<Rightarrow> string list" where
  "partsOf body boundary =
     (case indexOf body (boundaryBuffer boundary) 0 of
        None \<Rightarrow> []
      | Some idx \<Rightarrow> collectParts body boundary idx)"

text \<open>
  \<open>buf.toString()\<close>: the bytes decoded as UTF-8. \<open>utf8_dec cp needed lo hi bytes\<close> is
  the decoder in the state where \<open>needed\<close> continuation bytes are still to come for the
  code point begun in \<open>cp\<close>, the next of them between \<open>lo\<close> and \<open>hi\<close>. A byte that
  cannot start or continue a sequence gives U+FFFD; a byte that breaks a sequence is
  read again as the start of the next one; a sequence cut by the end of the buffer gives
  one U+FFFD. A code point above U+FFFF becomes a surrogate pair.
\<close>

fun utf8_dec :: "int \<Rightarrow> nat \<Rightarrow> int \<Rightarrow> int \<Rightarrow> int list \<Rightarrow> int list" where
  "utf8_dec cp needed lo hi [] = (if needed = 0 then [] else [0xFFFD])"
| "utf8_dec cp needed lo hi (b # bs) =
     (if needed = 0 then
        (if b \<le> 0x7F then b # utf8_dec 0 0 0x80 0xBF bs
         else if 0xC2 \<le> b \<and> b \<le> 0xDF then utf8_dec (b mod 32) 1 0x80 0xBF bs
         else if 0xE0 \<le> b \<and> b \<le> 0xEF then
           utf8_dec (b mod 16) 2 (if b = 0xE0 then 0xA0 else 0x80)
             (if b = 0xED then 0x9F else 0xBF) bs
         else if 0xF0 \<le> b \<and> b \<le> 0xF4 then
           utf8_dec (b mod 8) 3 (if b = 0xF0 then 0x90 else 0x80)
             (if b = 0xF4 then 0x8F else 0xBF) bs
         else 0xFFFD # utf8_dec 0 0 0x80 0xBF bs)
      else if b < lo \<or> hi < b then 0xFFFD # utf8_dec 0 0 0x80 0xBF (b # bs)
      else if needed = 1 then (cp * 64 + b mod 64) # utf8_dec 0 0 0x80 0xBF bs
      else utf8_dec (cp * 64 + b mod 64) (needed - 1) 0x80 0xBF bs)"

declare utf8_dec.simps [simp del]

definition utf16 :: "int \<Rightarrow> jsstring" where
  "utf16 cp =
     (if cp < 0x10000 then [cp]
      else [0xD800 + (cp - 0x10000) div 1024, 0xDC00 + (cp - 0x10000) mod 1024])"

definition toString :: "string \<Rightarrow> jsstring" where
  "toString buf = concat (map utf16 (utf8_dec 0 0 0x80 0xBF (map of_char buf)))"

text \<open>
  \<open>headers.match(/filename="([^"]+)"/)\<close> and \<open>headers.match(/name="([^"]+)"/)\<close>: the
  group of the leftmost match. \<open>match_quoted pre s\<close> looks for \<open>pre\<close> (the attribute
  with its opening quote) followed by one or more code units other than a quote and then
  a quote.
\<close>

fun match_quoted :: "jsstring \<Rightarrow> jsstring \<Rightarrow> jsstring option" where
  "match_quoted pre [] = None"
| "match_quoted pre (c # cs) =
     (if startsWith (c # cs) pre then
        (let rest = drop (length pre) (c # cs);
             v = takeWhile (\<lambda>x. x \<noteq> of_char dquote) rest
         in if v \<noteq> [] \<and> length v < length rest then Some v else match_quoted pre cs)
      else match_quoted pre cs)"

text \<open>
  The white space of \<open>\s\<close> and of \<open>trim()\<close>: tab, line feed, vertical tab, form feed,
  carriage return, space, no-break space, U+1680, U+2000 to U+200A, the line and
  paragraph separators, U+202F, U+205F, U+3000 and U+FEFF.
\<close>

definition is_space :: "int \<Rightarrow> bool" where
  "is_space u =
     (u \<in> set [0x09, 0x0A, 0x0B, 0x0C, 0x0D, 0x20, 0xA0, 0x1680, 0x2028, 0x2029, 0x202F,
               0x205F, 0x3000, 0xFEFF] \<or>
      (0x2000 \<le> u \<and> u \<le> 0x200A))"

definition is_eol :: "int \<Rightarrow> bool" where
  "is_eol u = (u = 0x0D \<or> u = 0x0A)"

text \<open>
  The letters of the pattern under the flag \<open>i\<close>: a code unit matches an ASCII letter
  when it is that letter in either case.
\<close>

definition lower_unit :: "int \<Rightarrow> int" where
  "lower_unit u = (if 65 \<le> u \<and> u \<le> 90 then u + 32 else u)"

text \<open>
  \<open>headers.match(/Content-Type:\s*([^\r\n]+)/i)\<close>, the group of the leftmost match.
  After the header name the white space is skipped greedily; the group is the run of
  code units up to the end of the line. When the white space runs to the end of the
  text, the matcher gives back white space until the group can take one code unit that
  is not a line end: the group is then the last such code unit of the white space.
\<close>

fun match_content_type :: "jsstring \<Rightarrow> jsstring option" where
  "match_content_type [] = None"
| "match_content_type (c # cs) =
     (if map lower_unit (take 13 (c # cs)) = js ''content-type:'' then
        (let rest = drop 13 (c # cs);
             ws = takeWhile is_space rest;
             after = drop (length ws) rest
         in if after \<noteq> [] then Some (takeWhile (\<lambda>x. \<not> is_eol x) after)
            else (case dropWhile is_eol (rev ws) of
                    [] \<Rightarrow> match_content_type cs
                  | w # _ \<Rightarrow> Some [w]))
      else match_content_type cs)"

text \<open>\<open>s.trim()\<close>\<close>

definition trim :: "jsstring \<Rightarrow> jsstring" where
  "trim s = rev (dropWhile is_space (rev (dropWhile is_space s)))"

record file_part =
  fp_filename :: jsstring
  fp_contentType :: jsstring
  fp_data :: string

record multipart_result =
  files :: "file_part list"
  contributor :: jsstring

text \<open>\<open>part.slice(headerEnd + 4)\<close> and \<open>content.slice(0, content.length - 2)\<close>\<close>

definition contentOf :: "string \<Rightarrow> nat \<Rightarrow> string" where
  "contentOf part headerEnd = slice part (int headerEnd + 4) (int (length part))"

definition cleanContent :: "string \<Rightarrow> string" where
  "cleanContent content = slice content 0 (int (length content) - 2)"

text \<open>
  The body of the second loop, for one part. The header block and the value of the
  \<open>contributor\<close> field are decoded by \<open>toString()\<close>; the data of a file stays bytes.
\<close>

definition processPart :: "multipart_result \<Rightarrow> string \<Rightarrow> multipart_result" where
  "processPart result part =
     (case indexOf part (CRLF @ CRLF) 0 of
        None \<Rightarrow> result
      | Some headerEnd \<Rightarrow>
          let headers = toString (slice part 0 (int headerEnd));
              clean = cleanContent (contentOf part headerEnd);
              filenameMatch = match_quoted (js (''filename='' @ [dquote])) headers;
              nameMatch = match_quoted (js (''name='' @ [dquote])) headers
          in (case filenameMatch of
               Some fname \<Rightarrow>
                 result\<lparr>files := files result @
                   [\<lparr>fp_filename = fname,
                     fp_contentType =
                       (case match_content_type headers of
                          Some ct \<Rightarrow> ct
                        | None \<Rightarrow> js ''application/octet-stream''),
                     fp_data = clean\<rparr>]\<rparr>
             | None \<Rightarrow>
                 if nameMatch = Some (js ''contributor'')
                 then result\<lparr>contributor :=
                        or_else (Some (trim (toString clean))) (js ''Memorial_Guest'')\<rparr>
                 else result))"

definition parseMultipart :: "string \<Rightarrow> string \<Rightarrow> multipart_result" where
  "parseMultipart body boundary =
     foldl processPart \<lparr>files = [], contributor = js ''Memorial_Guest''\<rparr>
       (partsOf body boundary)"

text \<open>
  What one part adds to the result: the file it holds, when its header block has a
  \<open>filename\<close> attribute, and the contributor it names, when it is the form field
  \<open>contributor\<close>. A part without a blank line adds nothing.
\<close>

definition fileOf :: "string \<Rightarrow> file_part option" where
  "fileOf part =
     (case indexOf part (CRLF @ CRLF) 0 of
        None \<Rightarrow> None
      | Some headerEnd \<Rightarrow>
          (case match_quoted (js (''filename='' @ [dquote]))
                  (toString (slice part 0 (int headerEnd))) of
             None \<Rightarrow> None
           | Some fname \<Rightarrow>
               Some \<lparr>fp_filename = fname,
                     fp_contentType =
                       (case match_content_type (toString (slice part 0 (int headerEnd))) of
                          Some ct \<Rightarrow> ct
                        | None \<Rightarrow> js ''application/octet-stream''),
                     fp_data = cleanContent (contentOf part headerEnd)\<rparr>))"

definition contributorOf :: "string \<Rightarrow> jsstring option" where
  "contributorOf part =
     (case indexOf part (CRLF @ CRLF) 0 of
        None \<Rightarrow> None
      | Some headerEnd \<Rightarrow>
          if match_quoted (js (''filename='' @ [dquote]))
               (toString (slice part 0 (int headerEnd))) = None \<and>
             match_quoted (js (''name='' @ [dquote]))
               (toString (slice part 0 (int headerEnd))) = Some (js ''contributor'')
          then Some (or_else (Some (trim (toString (cleanContent (contentOf part headerEnd)))))
                       (js ''Memorial_Guest''))
          else None)"

text \<open>
  The reading of the parts in the specification, to compare with the loop: the
  occurrences of the boundary pattern in the buffer, in order (the first at or after the
  offset, the next after the end of that one, and so on), and the segments that
  consecutive occurrences delimit, from the end of one to the start of the next.
\<close>

function spec_occurrences :: "string \<Rightarrow> string \<Rightarrow> nat \<Rightarrow> nat list" where
  "spec_occurrences body boundary off =
     (case indexOf body (boundaryBuffer boundary) off of
        None \<Rightarrow> []
      | Some i \<Rightarrow> i # spec_occurrences body boundary (i + length (boundaryBuffer boundary)))"
  by pat_completeness auto
termination
proof (relation "measure (\<lambda>(body, boundary, off). Suc (length body) - off)")
  show "wf (measure (\<lambda>(body, boundary, off). Suc (length body) - off))" by simp
next
  fix body boundary :: string and off i :: nat
  assume "indexOf body (boundaryBuffer boundary) off = Some i"
  from indexOf_bounds [OF this]
  have "off \<le> i" and "i + length (boundaryBuffer boundary) \<le> length body" by simp_all
  moreover have "2 \<le> length (boundaryBuffer boundary)" by (simp add: boundaryBuffer_def)
  ultimately show "((body, boundary, i + length (boundaryBuffer boundary)), (body, boundary, off))
      \<in> measure (\<lambda>(body, boundary, off). Suc (length body) - off)" by simp
qed

declare spec_occurrences.simps [simp del]

definition spec_segments :: "string \<Rightarrow> string \<Rightarrow> string list" where
  "spec_segments body boundary =
     (let occs = spec_occurrences body boundary 0
      in map (\<lambda>(i, j). slice body (int (i + length (boundaryBuffer boundary))) (int j))
           (zip occs (tl occs)))"

section \<open>The push-ingestion handlers\<close>

text \<open>The decimal digits of a number, as a template string prints it.\<close>

fun show_nat :: "nat \<Rightarrow> string" where
  "show_nat n =
     (if n < 10 then [char_of (48 + n)]
      else show_nat (n div 10) @ [char_of (48 + n mod 10)])"

declare show_nat.simps [simp del]

definition alnum_chars :: "char list" where
  "alnum_chars =
     ''abcdefghijklmnopqrstuvwxyz'' @ ''ABCDEFGHIJKLMNOPQRSTUVWXYZ'' @ ''0123456789''"

text \<open>
  The two replacements of the upload loop act on decoded texts. Every code unit of their
  results is an ASCII character, one of the class or the underscore, so the results, and
  the keys built from them, are given as lists of \<^typ>\<open>char\<close>.

  \<open>`${contributorName.replace(/[^a-zA-Z0-9]/g, "_")}_UPLOADS`\<close>
\<close>

definition folderName :: "jsstring \<Rightarrow> string" where
  "folderName contributorName =
     map (\<lambda>u. if u < 128 \<and> char_of u \<in> set alnum_chars then char_of u else CHR ''_'')
       contributorName @ ''_UPLOADS''"

text \<open>\<open>part.filename.replace(/[^a-zA-Z0-9._-]/g, "_")\<close>\<close>

definition safeFilename_units :: "jsstring \<Rightarrow> string" where
  "safeFilename_units filename =
     map (\<lambda>u. if u < 128 \<and> safe_char (char_of u) then char_of u else CHR ''_'') filename"

text \<open>
  \<open>contentType.split("boundary=")[1]\<close>: the text between the first and the second
  \<open>boundary=\<close>, \<open>undefined\<close> (\<open>None\<close>) when there is no first one.
\<close>

definition boundaryOf :: "string \<Rightarrow> string option" where
  "boundaryOf ct =
     (case indexOf ct ''boundary='' 0 of
        None \<Rightarrow> None
      | Some i \<Rightarrow>
          (let rest = drop (i + 9) ct
           in case indexOf rest ''boundary='' 0 of
                None \<Rightarrow> Some rest
              | Some j \<Rightarrow> Some (take j rest)))"

text \<open>The boundary as the template string \<open>`--${boundary}`\<close> prints it.\<close>

definition boundaryText :: "string option \<Rightarrow> string" where
  "boundaryText b = (case b of None \<Rightarrow> ''undefined'' | Some t \<Rightarrow> t)"

text \<open>
  The upload loop: one \<open>PutObjectCommand\<close> per file, in order. \<open>put\<close> is the storage
  service: \<open>None\<close> when the write succeeds, the message when \<open>send\<close> throws, which
  ends the loop.
\<close>

fun putAll ::
  "config \<Rightarrow> (string \<Rightarrow> string \<Rightarrow> string \<Rightarrow> jsstring \<Rightarrow> string option) \<Rightarrow> string \<Rightarrow>
   string \<Rightarrow> file_part list \<Rightarrow> uploaded_file list \<Rightarrow> call list \<Rightarrow>
   (string + uploaded_file list) \<times> call list" where
  "putAll cfg put folder ts [] uploadedFiles calls = (Inr uploadedFiles, calls)"
| "putAll cfg put folder ts (part # rest) uploadedFiles calls =
     (let key = folder @ ''/'' @ ts @ ''_'' @ safeFilename_units (fp_filename part);
          calls' = calls @
            [PutObject (R2_BUCKET_NAME cfg) key (fp_data part) (fp_contentType part)]
      in case put (R2_BUCKET_NAME cfg) key (fp_data part) (fp_contentType part) of
           Some err \<Rightarrow> (Inl err, calls')
         | None \<Rightarrow>
             putAll cfg put folder ts rest
               (uploadedFiles @
                  [\<lparr>uf_filename = fp_filename part, uf_objectKey = key,
                    uf_size = length (fp_data part)\<rparr>])
               calls')"

definition uploadFiles ::
  "config \<Rightarrow> (string \<Rightarrow> string \<Rightarrow> string \<Rightarrow> jsstring \<Rightarrow> string option) \<Rightarrow> string \<Rightarrow>
   jsstring \<Rightarrow> file_part list \<Rightarrow> response \<times> call list" where
  "uploadFiles cfg put now contributorName fs =
     (case putAll cfg put (folderName contributorName) (timestamp now) fs [] [] of
        (Inl err, calls) \<Rightarrow> (respond 500 (ErrorBody (''Upload failed: '' @ err)), calls)
      | (Inr uploadedFiles, calls) \<Rightarrow>
          (respond 200
             (UploadedBody
                (show_nat (length uploadedFiles) @ '' photo(s) uploaded successfully'')
                uploadedFiles),
           calls))"

text \<open>
  The event of the handler that parses the payload itself: the headers, and the buffer
  built from \<open>event.body\<close> (\<open>Inl\<close> with the message when \<open>Buffer.from\<close> throws).
\<close>

record upload_event = event +
  ev_headers :: "string \<Rightarrow> string option"
  ev_body :: "string + string"

definition upload_handler ::
  "config \<Rightarrow> (string \<Rightarrow> string \<Rightarrow> string \<Rightarrow> jsstring \<Rightarrow> string option) \<Rightarrow> string \<Rightarrow>
   upload_event \<Rightarrow> response \<times> call list" where
  "upload_handler cfg put now ev =
     (if httpMethod ev = ''OPTIONS'' then (respond 200 NoBody, [])
      else if httpMethod ev \<noteq> ''POST'' then (respond 405 (ErrorBody ''Method not allowed''), [])
      else if \<not> configured cfg then (respond 500 (ErrorBody ''Storage not configured''), [])
      else
        let contentType =
              (if truthy (ev_headers ev ''content-type'') then ev_headers ev ''content-type''
               else ev_headers ev ''Content-Type'')
        in if \<not> truthy contentType \<or>
              \<not> includes_str (or_else contentType []) ''multipart/form-data''
           then (respond 400 (ErrorBody ''Content-Type must be multipart/form-data''), [])
           else case ev_body ev of
             Inl msg \<Rightarrow> (respond 500 (ErrorBody (''Upload failed: '' @ msg)), [])
           | Inr buf \<Rightarrow>
               let boundary = boundaryText (boundaryOf (or_else contentType []));
                   parts = parseMultipart buf boundary;
                   contributorName = or_else (Some (contributor parts)) (js ''Memorial_Guest'')
               in uploadFiles cfg put now contributorName (files parts))"

text \<open>
  The handler that decodes the payload with the busboy library. The library is outside
  the repository: the event carries what \<open>parseMultipartForm(event)\<close> resolves to, the
  files (with \<open>mimeType\<close> and \<open>content\<close> in the fields of \<^typ>\<open>file_part\<close>) and the
  form fields, decoded texts, or the message it rejects with.
\<close>

record busboy_event = event +
  bb_parsed :: "string + file_part list \<times> (string \<Rightarrow> jsstring option)"

definition upload_handler_busboy ::
  "config \<Rightarrow> (string \<Rightarrow> string \<Rightarrow> string \<Rightarrow> jsstring \<Rightarrow> string option) \<Rightarrow> string \<Rightarrow>
   busboy_event \<Rightarrow> response \<times> call list" where
  "upload_handler_busboy cfg put now ev =
     (if httpMethod ev = ''OPTIONS'' then (respond 200 NoBody, [])
      else if httpMethod ev \<noteq> ''POST'' then (respond 405 (ErrorBody ''Method not allowed''), [])
      else if \<not> configured cfg
        then (respond 500 (ErrorBody ''Storage not configured. Missing R2 credentials.''), [])
      else case bb_parsed ev of
        Inl msg \<Rightarrow> (respond 500 (ErrorBody (''Upload failed: '' @ msg)), [])
      | Inr (fs, form) \<Rightarrow>
          if length fs = 0 then (respond 400 (ErrorBody ''No files uploaded''), [])
          else uploadFiles cfg put now
                 (or_else (form ''contributor'') (js ''Memorial_Guest'')) fs)"

section \<open>The gallery handler\<close>

record s3_object =
  Key :: string
  Size :: nat
  LastModified :: string

record list_page =
  Contents :: "s3_object list option"
  IsTruncated :: bool
  NextContinuationToken :: "string option"

text \<open>
  The \<open>do ... while (continuationToken)\<close> loop over the pages of the listing.
  \<open>send\<close> is the storage service answering \<open>ListObjectsV2Command\<close> for a bucket, a
  page size and a continuation token: a page, or the message of the error thrown. The
  service may answer with a token for ever, and then the loop does not return: the
  result is \<open>None\<close>.
\<close>

partial_function (option) listAll ::
  "(string \<Rightarrow> nat \<Rightarrow> string option \<Rightarrow> string + list_page) \<Rightarrow> string \<Rightarrow> s3_object list \<Rightarrow>
   call list \<Rightarrow> string option \<Rightarrow> ((string + s3_object list) \<times> call list) option" where
  "listAll send bucket allObjects calls continuationToken =
     (let calls' = calls @ [ListObjectsV2 bucket 1000 continuationToken]
      in case send bucket 1000 continuationToken of
           Inl err \<Rightarrow> Some (Inl err, calls')
         | Inr listResponse \<Rightarrow>
             (let objects = (case Contents listResponse of None \<Rightarrow> [] | Some os \<Rightarrow> os);
                  allObjects' = allObjects @ objects;
                  token = (if IsTruncated listResponse
                           then NextContinuationToken listResponse else None)
              in if truthy token then listAll send bucket allObjects' calls' token
                 else Some (Inr allObjects', calls')))"

definition mediaExtensions :: "string list" where
  "mediaExtensions =
     [''.jpg'', ''.jpeg'', ''.png'', ''.gif'', ''.webp'', ''.heic'', ''.heif'', ''.mp4'',
      ''.mov'', ''.webm'']"

text \<open>The predicate of \<open>allObjects.filter\<close>, on the key of the object.\<close>

definition isMedia :: "string \<Rightarrow> bool" where
  "isMedia k =
     (let key = toLowerCase k
      in if startsWith key ''_'' \<or> includes_str key ''manifest'' then False
         else list_ex (\<lambda>ext. endsWith key ext) mediaExtensions)"

definition mediaFiles :: "s3_object list \<Rightarrow> s3_object list" where
  "mediaFiles allObjects = filter (\<lambda>obj. isMedia (Key obj)) allObjects"

text \<open>
  \<open>shuffleArray\<close>: for \<open>i\<close> from the last index down to 1, swap the entries at \<open>i\<close> and
  \<open>j\<close>. \<open>rnd i\<close> stands for \<open>Math.floor(Math.random() * (i + 1))\<close> at the iteration
  \<open>i\<close>, a number from 0 to \<open>i\<close>; the floating-point product is not modelled.
\<close>

fun shuffle_from :: "(nat \<Rightarrow> nat) \<Rightarrow> nat \<Rightarrow> 'a list \<Rightarrow> 'a list" where
  "shuffle_from rnd 0 array = array"
| "shuffle_from rnd (Suc k) array =
     (let i = Suc k; j = rnd i
      in shuffle_from rnd k (array[i := array ! j, j := array ! i]))"

definition shuffleArray :: "(nat \<Rightarrow> nat) \<Rightarrow> 'a list \<Rightarrow> 'a list" where
  "shuffleArray rnd array = shuffle_from rnd (length array - 1) array"

text \<open>\<open>s.split(c)\<close> for a one-character separator.\<close>

fun split_on :: "char \<Rightarrow> string \<Rightarrow> string list" where
  "split_on c [] = [[]]"
| "split_on c (x # xs) =
     (if x = c then [] # split_on c xs
      else (case split_on c xs of [] \<Rightarrow> [[x]] | p # ps \<Rightarrow> (x # p) # ps))"

text \<open>\<open>s.replace(pat, rep)\<close> with a string pattern: the first occurrence only.\<close>

definition replace_first :: "string \<Rightarrow> string \<Rightarrow> string \<Rightarrow> string" where
  "replace_first s pat rep =
     (case indexOf s pat 0 of
        None \<Rightarrow> s
      | Some i \<Rightarrow> take i s @ rep @ drop (i + length pat) s)"

text \<open>The object returned for one sampled entry, given its signed URL.\<close>

definition galleryItem :: "s3_object \<Rightarrow> string \<Rightarrow> gallery_item" where
  "galleryItem obj signedUrl =
     (let parts = split_on (CHR ''/'') (Key obj);
          first = (case parts of [] \<Rightarrow> [] | p # _ \<Rightarrow> p);
          contributor =
            map (\<lambda>c. if c = CHR ''_'' then CHR '' '' else c) (replace_first first ''_UPLOADS'' []);
          filename = (case rev parts of [] \<Rightarrow> [] | p # _ \<Rightarrow> p);
          isVideo = list_ex (\<lambda>ext. endsWith (toLowerCase (Key obj)) ext)
                      [''.mp4'', ''.mov'', ''.webm''];
          isHeic = list_ex (\<lambda>ext. endsWith (toLowerCase (Key obj)) ext) [''.heic'', ''.heif'']
      in \<lparr>gi_key = Key obj, gi_url = signedUrl, gi_filename = filename,
          gi_contributor = contributor, gi_size = Size obj,
          gi_lastModified = LastModified obj, gi_isVideo = isVideo, gi_isHeic = isHeic\<rparr>)"

text \<open>
  \<open>Promise.all\<close>: all the results, or a rejection. The callbacks run concurrently;
  when several reject, the model reports the first in the order of the entries.
\<close>

fun allSettled :: "(string + 'a) list \<Rightarrow> string + 'a list" where
  "allSettled [] = Inr []"
| "allSettled (Inl err # rs) = Inl err"
| "allSettled (Inr x # rs) =
     (case allSettled rs of Inl err \<Rightarrow> Inl err | Inr xs \<Rightarrow> Inr (x # xs))"

text \<open>
  The fan-out over the sampled entries: every callback asks the signer for a read URL
  (\<open>sign\<close> gives the URL, or the message of the error), and the results are joined in the
  order of the entries.
\<close>

definition signAll ::
  "config \<Rightarrow> (string \<Rightarrow> string \<Rightarrow> string + string) \<Rightarrow> s3_object list \<Rightarrow>
   (string + gallery_item list) \<times> call list" where
  "signAll cfg sign objs =
     (allSettled
        (map (\<lambda>obj. case sign (R2_BUCKET_NAME cfg) (Key obj) of
                      Inl err \<Rightarrow> Inl err
                    | Inr signedUrl \<Rightarrow> Inr (galleryItem obj signedUrl)) objs),
      map (\<lambda>obj. SignGetObject (R2_BUCKET_NAME cfg) (Key obj)) objs)"

definition gallery_handler ::
  "config \<Rightarrow> (string \<Rightarrow> nat \<Rightarrow> string option \<Rightarrow> string + list_page) \<Rightarrow>
   (string \<Rightarrow> string \<Rightarrow> string + string) \<Rightarrow> (nat \<Rightarrow> nat) \<Rightarrow> event \<Rightarrow>
   (response \<times> call list) option" where
  "gallery_handler cfg send sign rnd ev =
     (if httpMethod ev = ''OPTIONS'' then Some (respond 200 NoBody, [])
      else if httpMethod ev \<noteq> ''GET''
        then Some (respond 405 (ErrorBody ''Method not allowed''), [])
      else if \<not> configured cfg
        then Some (respond 500 (ErrorBody ''Server configuration error''), [])
      else case listAll send (R2_BUCKET_NAME cfg) [] [] None of
        None \<Rightarrow> None
      | Some (Inl err, calls) \<Rightarrow>
          Some (respond 500 (ErrorDetails ''Failed to fetch gallery'' err), calls)
      | Some (Inr allObjects, calls) \<Rightarrow>
          (let shuffledFiles = shuffleArray rnd (mediaFiles allObjects)
           in case signAll cfg sign (slice shuffledFiles 0 50) of
                (Inl err, calls') \<Rightarrow>
                  Some (respond 500 (ErrorDetails ''Failed to fetch gallery'' err),
                        calls @ calls')
              | (Inr photos, calls') \<Rightarrow>
                  Some (respond 200 (GalleryBody photos (length photos)), calls @ calls')))"

text \<open>
  The continuation marker a page reports, as the loop reads it, and what it is for the
  service to return a given sequence of pages: it answers the first request (with the
  token given) by the first page, each page but the last reports a marker, the request
  carrying that marker is answered by the next page, and the last page reports none.
\<close>

definition nextToken :: "list_page \<Rightarrow> string option" where
  "nextToken p = (if IsTruncated p then NextContinuationToken p else None)"

definition objectsOf :: "list_page \<Rightarrow> s3_object list" where
  "objectsOf p = (case Contents p of None \<Rightarrow> [] | Some os \<Rightarrow> os)"

fun pages_served ::
  "(string \<Rightarrow> nat \<Rightarrow> string option \<Rightarrow> string + list_page) \<Rightarrow> string \<Rightarrow> string option \<Rightarrow>
   list_page list \<Rightarrow> bool" where
  "pages_served send bucket token [] = False"
| "pages_served send bucket token [p] =
     (send bucket 1000 token = Inr p \<and> \<not> truthy (nextToken p))"
| "pages_served send bucket token (p # q # ps) =
     (send bucket 1000 token = Inr p \<and> truthy (nextToken p) \<and>
      pages_served send bucket (nextToken p) (q # ps))"

text \<open>
  A bucket for the instances below: two pages, the first truncated, with one media file
  and two bookkeeping objects, and a signer that always succeeds.
\<close>

definition example_cfg :: config where
  "example_cfg =
     \<lparr>R2_ACCOUNT_ID = Some ''acct'', R2_ACCESS_KEY_ID = Some ''id'',
      R2_SECRET_ACCESS_KEY = Some ''secret'', R2_BUCKET_NAME = ''family-archive-uploads''\<rparr>"

definition example_pages :: "list_page list" where
  "example_pages =
     [\<lparr>Contents = Some [\<lparr>Key = ''_manifest.json'', Size = 5, LastModified = ''d0''\<rparr>,
                        \<lparr>Key = ''Ann_UPLOADS/manifest_1.png'', Size = 7,
                         LastModified = ''d1''\<rparr>],
       IsTruncated = True, NextContinuationToken = Some ''t1''\<rparr>,
      \<lparr>Contents = Some [\<lparr>Key = ''Ann_UPLOADS/1.JPG'', Size = 10, LastModified = ''d2''\<rparr>],
       IsTruncated = False, NextContinuationToken = None\<rparr>]"

definition example_listing :: "string \<Rightarrow> nat \<Rightarrow> string option \<Rightarrow> string + list_page" where
  "example_listing bucket maxKeys token =
     (if token = None then Inr (example_pages ! 0)
      else if token = Some ''t1'' then Inr (example_pages ! 1)
      else Inl ''InvalidToken'')"

definition example_signer :: "string \<Rightarrow> string \<Rightarrow> string + string" where
  "example_signer bucket key = Inr (''https://r2/'' @ key)"

definition example_photo :: gallery_item where
  "example_photo =
     \<lparr>gi_key = ''Ann_UPLOADS/1.JPG'', gi_url = ''https://r2/Ann_UPLOADS/1.JPG'',
      gi_filename = ''1.JPG'', gi_contributor = ''Ann'', gi_size = 10,
      gi_lastModified = ''d2'', gi_isVideo = False, gi_isHeic = False\<rparr>"

text \<open>
  A second bucket: one page of sixty media files with distinct keys.
\<close>

definition sixty_object :: "nat \<Rightarrow> s3_object" where
  "sixty_object i =
     \<lparr>Key = ''Ann_UPLOADS/'' @ replicate (Suc i) (CHR ''x'') @ ''.jpg'', Size = i,
      LastModified = ''d''\<rparr>"

definition sixty_objects :: "s3_object list" where
  "sixty_objects = map sixty_object [0..<60]"

definition sixty_listing :: "string \<Rightarrow> nat \<Rightarrow> string option \<Rightarrow> string + list_page" where
  "sixty_listing bucket maxKeys token =
     Inr \<lparr>Contents = Some sixty_objects, IsTruncated = False, NextContinuationToken = None\<rparr>"

section \<open>Properties of the primitives\<close>

text \<open>
  The executable primitives meet their descriptions: \<open>slice\<close> with bounds in range is
  \<open>take\<close> after \<open>drop\<close>, \<open>indexOf\<close> gives the first position at or after the offset
  where the pattern stands, \<open>includes\<close>, \<open>startsWith\<close> and \<open>endsWith\<close> are the
  substring, prefix and suffix relations, and the shuffle permutes its argument.
\<close>

lemma nat_int_sub: "nat (int a - int b) = a - b"
  by arith

lemma nat_int_sub2: "nat (int a - 2) = a - 2"
  by arith

lemma slice_from_zero: "slice xs 0 (int n) = take n xs"
  by (simp add: slice_def min_def)

lemma slice_between: "i \<le> j \<Longrightarrow> slice xs (int i) (int j) = take (j - i) (drop i xs)"
  by (auto simp: slice_def min_def Let_def nat_int_sub)

lemma slice_to_end: "slice xs (int i) (int (length xs)) = drop i xs"
  by (auto simp: slice_def min_def Let_def)

lemma cleanContent_take: "cleanContent content = take (length content - 2) content"
  by (auto simp: cleanContent_def slice_def Let_def min_def max_def nat_int_sub2)

lemma find_from_iff:
  "find_from pat xs k = Some j \<longleftrightarrow>
     k \<le> j \<and> j - k \<le> length xs \<and> take (length pat) (drop (j - k) xs) = pat \<and>
     (\<forall>m < j - k. take (length pat) (drop m xs) \<noteq> pat)"
proof (induction xs arbitrary: k)
  case Nil
  then show ?case by auto
next
  case (Cons x xs)
  show ?case
  proof (cases "take (length pat) (x # xs) = pat")
    case True
    have "j = k" if "k \<le> j" and "\<forall>m < j - k. take (length pat) (drop m (x # xs)) \<noteq> pat"
    proof (rule ccontr)
      assume "j \<noteq> k"
      with that(1) have "0 < j - k" by simp
      from that(2) [rule_format, OF this] True show False by simp
    qed
    with True show ?thesis by auto
  next
    case False
    have "find_from pat (x # xs) k = Some j \<longleftrightarrow> find_from pat xs (Suc k) = Some j"
      using False by simp
    also have "\<dots> \<longleftrightarrow> Suc k \<le> j \<and> j - Suc k \<le> length xs \<and>
        take (length pat) (drop (j - Suc k) xs) = pat \<and>
        (\<forall>m < j - Suc k. take (length pat) (drop m xs) \<noteq> pat)"
      by (rule Cons.IH)
    also have "\<dots> \<longleftrightarrow> k \<le> j \<and> j - k \<le> length (x # xs) \<and>
        take (length pat) (drop (j - k) (x # xs)) = pat \<and>
        (\<forall>m < j - k. take (length pat) (drop m (x # xs)) \<noteq> pat)"
    proof (cases "j \<le> k")
      case True
      then show ?thesis using False by auto
    next
      case jk: False
      then obtain d where d: "j - k = Suc d" "j - Suc k = d" 
        by (metis Suc_diff_Suc not_le)
      have "(\<forall>m < Suc d. take (length pat) (drop m (x # xs)) \<noteq> pat) \<longleftrightarrow>
            (\<forall>m < d. take (length pat) (drop m xs) \<noteq> pat)"
        using False by (auto simp: less_Suc_eq_0_disj)
      then show ?thesis using jk d by auto
    qed
    finally show ?thesis .
  qed
qed

lemma indexOf_iff:
  "indexOf buf pat off = Some j \<longleftrightarrow>
     off \<le> j \<and> j \<le> length buf \<and> take (length pat) (drop j buf) = pat \<and>
     (\<forall>m. off \<le> m \<and> m < j \<longrightarrow> take (length pat) (drop m buf) \<noteq> pat)"
proof (cases "length buf < off")
  case True
  then show ?thesis by (auto simp: indexOf_def)
next
  case False
  have "(\<forall>m < j - off. take (length pat) (drop m (drop off buf)) \<noteq> pat) \<longleftrightarrow>
        (\<forall>m. off \<le> m \<and> m < j \<longrightarrow> take (length pat) (drop m buf) \<noteq> pat)" (is "?L \<longleftrightarrow> ?R")
  proof
    assume l: ?L
    show ?R
    proof (intro allI impI)
      fix m assume "off \<le> m \<and> m < j"
      then have "m - off < j - off" by arith
      from l [rule_format, OF this] show "take (length pat) (drop m buf) \<noteq> pat"
        using \<open>off \<le> m \<and> m < j\<close> by (simp add: add.commute)
    qed
  next
    assume r: ?R
    show ?L
    proof (intro allI impI)
      fix m assume "m < j - off"
      then have "off \<le> m + off \<and> m + off < j" by arith
      from r [rule_format, OF this] show "take (length pat) (drop m (drop off buf)) \<noteq> pat"
        by (simp add: add.commute)
    qed
  qed
  with False show ?thesis
    by (auto simp: indexOf_def find_from_iff add.commute)
qed


lemma find_from_None_iff:
  "find_from pat xs k = None \<longleftrightarrow> (\<forall>m \<le> length xs. take (length pat) (drop m xs) \<noteq> pat)"
proof (induction xs arbitrary: k)
  case Nil
  then show ?case by auto
next
  case (Cons x xs)
  show ?case
  proof (cases "take (length pat) (x # xs) = pat")
    case True
    then have "\<exists>m \<le> length (x # xs). take (length pat) (drop m (x # xs)) = pat"
      by (intro exI [of _ 0]) simp
    with True show ?thesis by auto
  next
    case False
    have "(\<forall>m \<le> length (x # xs). take (length pat) (drop m (x # xs)) \<noteq> pat) \<longleftrightarrow>
          (\<forall>m \<le> length xs. take (length pat) (drop m xs) \<noteq> pat)" (is "?L \<longleftrightarrow> ?R")
    proof
      assume l: ?L
      show ?R
      proof (intro allI impI)
        fix m assume "m \<le> length xs"
        then have "Suc m \<le> length (x # xs)" by simp
        from l [rule_format, OF this] show "take (length pat) (drop m xs) \<noteq> pat" by simp
      qed
    next
      assume r: ?R
      show ?L
      proof (intro allI impI)
        fix m assume m: "m \<le> length (x # xs)"
        show "take (length pat) (drop m (x # xs)) \<noteq> pat"
        proof (cases m)
          case 0
          with False show ?thesis by simp
        next
          case (Suc d)
          with m have "d \<le> length xs" by simp
          from r [rule_format, OF this] Suc show ?thesis by simp
        qed
      qed
    qed
    with False Cons.IH [of "Suc k"] show ?thesis by simp
  qed
qed

lemma indexOf_None_iff:
  "indexOf buf pat off = None \<longleftrightarrow>
     (\<forall>m. off \<le> m \<and> m \<le> length buf \<longrightarrow> take (length pat) (drop m buf) \<noteq> pat)"
proof (cases "length buf < off")
  case True
  then show ?thesis by (auto simp: indexOf_def)
next
  case False
  have "(\<forall>m \<le> length (drop off buf). take (length pat) (drop m (drop off buf)) \<noteq> pat) \<longleftrightarrow>
        (\<forall>m. off \<le> m \<and> m \<le> length buf \<longrightarrow> take (length pat) (drop m buf) \<noteq> pat)"
    (is "?L \<longleftrightarrow> ?R")
  proof
    assume l: ?L
    show ?R
    proof (intro allI impI)
      fix m assume m: "off \<le> m \<and> m \<le> length buf"
      then have "m - off \<le> length (drop off buf)" by (simp add: diff_le_mono)
      from l [rule_format, OF this] m show "take (length pat) (drop m buf) \<noteq> pat"
        by (simp add: add.commute)
    qed
  next
    assume r: ?R
    show ?L
    proof (intro allI impI)
      fix m assume "m \<le> length (drop off buf)"
      with False have "off \<le> m + off \<and> m + off \<le> length buf" by simp
      from r [rule_format, OF this] show "take (length pat) (drop m (drop off buf)) \<noteq> pat"
        by (simp add: add.commute)
    qed
  qed
  with False show ?thesis
    by (simp add: indexOf_def find_from_None_iff)
qed

lemma includes_str_iff: "includes_str s p \<longleftrightarrow> (\<exists>a b. s = a @ p @ b)"
proof
  assume "includes_str s p"
  then obtain j where "indexOf s p 0 = Some j"
    by (auto simp: includes_str_def)
  then have j: "take (length p) (drop j s) = p"
    by (simp add: indexOf_iff)
  have "drop j s = take (length p) (drop j s) @ drop (length p) (drop j s)"
    by (rule append_take_drop_id [symmetric])
  then have "s = take j s @ take (length p) (drop j s) @ drop (length p) (drop j s)"
    by (metis append_take_drop_id)
  with j have "s = take j s @ p @ drop (length p) (drop j s)" by simp
  then show "\<exists>a b. s = a @ p @ b" by blast
next
  assume "\<exists>a b. s = a @ p @ b"
  then obtain a b where s: "s = a @ p @ b" by blast
  have "length a \<le> length s" and "take (length p) (drop (length a) s) = p"
    by (simp_all add: s)
  then have "find_from p s 0 \<noteq> None"
    unfolding find_from_None_iff by blast
  then show "includes_str s p"
    by (simp add: includes_str_def indexOf_def)
qed

lemma startsWith_iff: "startsWith s p \<longleftrightarrow> (\<exists>b. s = p @ b)"
proof
  assume "startsWith s p"
  then have "s = p @ drop (length p) s"
    unfolding startsWith_def by (metis append_take_drop_id)
  then show "\<exists>b. s = p @ b" ..
next
  assume "\<exists>b. s = p @ b"
  then show "startsWith s p" by (auto simp: startsWith_def)
qed

lemma endsWith_iff: "endsWith s p \<longleftrightarrow> (\<exists>a. s = a @ p)"
proof
  assume "endsWith s p"
  then have "s = take (length s - length p) s @ p"
    unfolding endsWith_def by (metis append_take_drop_id)
  then show "\<exists>a. s = a @ p" ..
next
  assume "\<exists>a. s = a @ p"
  then show "endsWith s p" by (auto simp: endsWith_def)
qed

lemma isMedia_iff:
  "isMedia k \<longleftrightarrow>
     list_ex (\<lambda>ext. endsWith (toLowerCase k) ext) mediaExtensions \<and>
     \<not> startsWith (toLowerCase k) ''_'' \<and> \<not> includes_str (toLowerCase k) ''manifest''"
  by (auto simp: isMedia_def Let_def)

lemma length_shuffle_from: "length (shuffle_from rnd k xs) = length xs"
  by (induction k arbitrary: xs) (simp_all add: Let_def)

lemma mset_shuffle_from:
  "\<forall>i. rnd i \<le> i \<Longrightarrow> k < length xs \<Longrightarrow> mset (shuffle_from rnd k xs) = mset xs"
proof (induction k arbitrary: xs)
  case 0
  then show ?case by simp
next
  case (Suc k)
  let ?ys = "xs[Suc k := xs ! rnd (Suc k), rnd (Suc k) := xs ! Suc k]"
  from Suc.prems have j: "rnd (Suc k) < length xs"
    by (meson le_less_trans)
  have "mset (shuffle_from rnd k ?ys) = mset ?ys"
    using Suc.prems by (intro Suc.IH) simp_all
  also have "\<dots> = mset xs"
    using j Suc.prems(2) by (rule mset_swap)
  finally show ?case by (simp add: Let_def)
qed

lemma length_shuffleArray: "length (shuffleArray rnd xs) = length xs"
  by (simp add: shuffleArray_def length_shuffle_from)

lemma mset_shuffleArray: "\<forall>i. rnd i \<le> i \<Longrightarrow> mset (shuffleArray rnd xs) = mset xs"
  by (cases "xs = []") (simp_all add: shuffleArray_def mset_shuffle_from)

lemma gi_key_galleryItem: "gi_key (galleryItem obj url) = Key obj"
  by (simp add: galleryItem_def Let_def)

lemma allSettled_keys:
  "allSettled (map (\<lambda>obj. case sign b (Key obj) of
                      Inl err \<Rightarrow> Inl err
                    | Inr signedUrl \<Rightarrow> Inr (galleryItem obj signedUrl)) objs) = Inr photos
   \<Longrightarrow> map gi_key photos = map Key objs"
proof (induction objs arbitrary: photos)
  case Nil
  then show ?case by auto
next
  case (Cons obj objs)
  then show ?case
    by (auto simp: gi_key_galleryItem split: sum.splits)
qed

lemma signAll_keys:
  "signAll cfg sign objs = (Inr photos, calls) \<Longrightarrow> map gi_key photos = map Key objs"
  by (auto simp: signAll_def dest: allSettled_keys)

section \<open>Properties of key resolution\<close>

lemma safeFilename_length: "length (safeFilename f) = length f"
  by (simp add: safeFilename_def)

lemma safeFilename_nth:
  "i < length f \<Longrightarrow> safeFilename f ! i = (if safe_char (f ! i) then f ! i else CHR ''_'')"
  by (simp add: safeFilename_def)

lemma safe_char_underscore: "safe_char (CHR ''_'')"
  by (simp add: safe_char_def safe_chars_def)

lemma objectKey_shape:
  "objectKey now h f =
     ''Memorial_Guest_UPLOADS/'' @ (if truthy h then or_else h [] else timestamp now) @ ''_'' @
     safeFilename f"
  by (simp add: objectKey_def hashKey_def timestampKey_def)

text \<open>
  C8. The filename segment of the key is the filename with every character outside
  \<open>[A-Za-z0-9._-]\<close> replaced by an underscore, position by position; the characters of
  the class are kept. The underscore is in the class, so the segment holds only
  characters of the class; it ends the key, after the discriminator and its underscore.
\<close>

theorem safeFilename_allowed:
  "(\<forall>c \<in> set (safeFilename f). safe_char c) \<and>
   length (safeFilename f) = length f \<and>
   (\<forall>i < length f. safeFilename f ! i = (if safe_char (f ! i) then f ! i else CHR ''_'')) \<and>
   objectKey now h f =
     ''Memorial_Guest_UPLOADS/'' @ (if truthy h then or_else h [] else timestamp now) @ ''_'' @
     safeFilename f"
proof -
  have "\<forall>c \<in> set (safeFilename f). safe_char c"
    by (auto simp: safeFilename_def safe_char_underscore)
  then show ?thesis
    using safeFilename_length safeFilename_nth objectKey_shape by blast
qed

theorem safeFilename_allowed_witness:
  "safeFilename ''My Photo #1.JPG'' = ''My_Photo__1.JPG'' \<and>
   safe_char (safeFilename ''My Photo #1.JPG'' ! 2) \<and>
   objectKey ''2024-01-02T03:04:05.678Z'' None ''My Photo #1.JPG'' =
     ''Memorial_Guest_UPLOADS/2024-01-02T03-04-05_My_Photo__1.JPG''"
  using safeFilename_allowed [of "''My Photo #1.JPG''" "''2024-01-02T03:04:05.678Z''" None]
  by (simp add: safeFilename_def safe_char_def safe_chars_def timestamp_def slice_def)

text \<open>
  C9. In hash mode (a non-empty \<open>fileHash\<close>) the key does not depend on the time of the
  call, and for one filename two hashes give the same key exactly when they are equal:
  the same hash gives the same key at any two times, different hashes give different
  keys.
\<close>

theorem objectKey_hash_mode:
  assumes "h1 \<noteq> []" and "h2 \<noteq> []"
  shows "objectKey t1 (Some h1) f = objectKey t2 (Some h2) f \<longleftrightarrow> h1 = h2"
  using assms by (simp add: objectKey_def hashKey_def)

theorem objectKey_hash_mode_witness:
  "objectKey ''2024-01-02T03:04:05.678Z'' (Some ''abc123'') ''a.png'' =
     objectKey ''2025-06-07T08:09:10.111Z'' (Some ''abc123'') ''a.png'' \<and>
   objectKey ''2024-01-02T03:04:05.678Z'' (Some ''abc123'') ''a.png'' \<noteq>
     objectKey ''2024-01-02T03:04:05.678Z'' (Some ''abc124'') ''a.png''"
  using objectKey_hash_mode [of "''abc123''" "''abc123''" "''2024-01-02T03:04:05.678Z''"
      "''a.png''" "''2025-06-07T08:09:10.111Z''"]
    objectKey_hash_mode [of "''abc123''" "''abc124''" "''2024-01-02T03:04:05.678Z''"
      "''a.png''" "''2024-01-02T03:04:05.678Z''"]
  by simp

section \<open>Properties of the upload-credential handler\<close>

text \<open>The key in a response of the handler is the key of the resolver.\<close>

lemma presign_handler_key:
  assumes "presign_handler cfg head sign now ev = (r, calls)"
    and "parsed ev = Inr req"
    and "resp_body r = UploadUrlBody url k e \<or> resp_body r = SkippedBody k m"
  shows "k = objectKey now (rq_fileHash req) (or_else (rq_filename req) [])"
  using assms
  by (auto simp: presign_handler_def issue_def respond_def objectKey_def Let_def
      split: if_splits sum.splits probe.splits)

text \<open>Without a hash the handler is its earlier version.\<close>

lemma presign_handler_without_hash:
  "parsed ev = Inr req \<Longrightarrow> \<not> truthy (rq_fileHash req) \<Longrightarrow>
   presign_handler cfg head sign now ev = presign_handler_timestamp cfg sign now ev"
  by (simp add: presign_handler_def presign_handler_timestamp_def Let_def)

text \<open>
  C3. A request with a filename and a hash whose key the probe finds in the bucket is
  answered 200 with \<open>{success, skipped, objectKey, message}\<close> naming the key of the
  hash, and the only call made is the probe: no write URL is signed.
\<close>

theorem presign_skip:
  assumes "httpMethod ev = ''POST''" and "configured cfg"
    and "parsed ev = Inr req"
    and "rq_filename req = Some f" and "f \<noteq> []"
    and "rq_fileHash req = Some h" and "h \<noteq> []"
    and "head (R2_BUCKET_NAME cfg) (hashKey h f) = ProbeExists"
  shows "presign_handler cfg head sign now ev =
           (respond 200 (SkippedBody (hashKey h f) ''File already exists''),
            [HeadObject (R2_BUCKET_NAME cfg) (hashKey h f)])"
  using assms by (simp add: presign_handler_def Let_def)

theorem presign_skip_witness:
  "presign_handler
     \<lparr>R2_ACCOUNT_ID = Some ''acct'', R2_ACCESS_KEY_ID = Some ''id'',
      R2_SECRET_ACCESS_KEY = Some ''secret'', R2_BUCKET_NAME = ''family-archive-uploads''\<rparr>
     (\<lambda>bucket key. ProbeExists)
     (\<lambda>bucket key ct. Inr ''https://signed'')
     ''2024-01-02T03:04:05.678Z''
     \<lparr>httpMethod = ''POST'',
      parsed = Inr \<lparr>rq_filename = Some ''a.png'', rq_contentType = Some ''image/png'',
                    rq_size = Some 3, rq_fileHash = Some ''abc123''\<rparr>\<rparr> =
   (respond 200 (SkippedBody ''Memorial_Guest_UPLOADS/abc123_a.png'' ''File already exists''),
    [HeadObject ''family-archive-uploads'' ''Memorial_Guest_UPLOADS/abc123_a.png''])"
  using presign_skip [of
     "\<lparr>httpMethod = ''POST'',
      parsed = Inr \<lparr>rq_filename = Some ''a.png'', rq_contentType = Some ''image/png'',
                    rq_size = Some 3, rq_fileHash = Some ''abc123''\<rparr>\<rparr>"
     "\<lparr>R2_ACCOUNT_ID = Some ''acct'', R2_ACCESS_KEY_ID = Some ''id'',
      R2_SECRET_ACCESS_KEY = Some ''secret'', R2_BUCKET_NAME = ''family-archive-uploads''\<rparr>"
     "\<lparr>rq_filename = Some ''a.png'', rq_contentType = Some ''image/png'',
                    rq_size = Some 3, rq_fileHash = Some ''abc123''\<rparr>"
     "''a.png''" "''abc123''" "\<lambda>bucket key. ProbeExists" 
     "\<lambda>bucket key ct. Inr ''https://signed''" "''2024-01-02T03:04:05.678Z''"]
  by (simp add: configured_def hashKey_def safeFilename_def safe_char_def safe_chars_def)

text \<open>
  C1. Run at a probe that fails with a network fault: the handler does not answer with an
  error. It goes on as it does when the object is not found, signs a write URL for the
  key and answers 200 with it.
\<close>

theorem presign_probe_failure_issues_credential:
  "presign_handler
     \<lparr>R2_ACCOUNT_ID = Some ''acct'', R2_ACCESS_KEY_ID = Some ''id'',
      R2_SECRET_ACCESS_KEY = Some ''secret'', R2_BUCKET_NAME = ''family-archive-uploads''\<rparr>
     (\<lambda>bucket key. ProbeFailed ''ETIMEDOUT'')
     (\<lambda>bucket key ct. Inr ''https://signed'')
     ''2024-01-02T03:04:05.678Z''
     \<lparr>httpMethod = ''POST'',
      parsed = Inr \<lparr>rq_filename = Some ''a.png'', rq_contentType = Some ''image/png'',
                    rq_size = Some 3, rq_fileHash = Some ''abc123''\<rparr>\<rparr> =
   (respond 200 (UploadUrlBody ''https://signed'' ''Memorial_Guest_UPLOADS/abc123_a.png'' 3600),
    [HeadObject ''family-archive-uploads'' ''Memorial_Guest_UPLOADS/abc123_a.png'',
     SignPutObject ''family-archive-uploads'' ''Memorial_Guest_UPLOADS/abc123_a.png''
       ''image/png''])"
  by (simp add: presign_handler_def issue_def configured_def hashKey_def safeFilename_def
      safe_char_def safe_chars_def Let_def)

text \<open>A failed probe and a probe answering "not found" are not told apart.\<close>

lemma presign_probe_failed_as_not_found:
  "presign_handler cfg (\<lambda>bucket key. ProbeFailed err) sign now ev =
   presign_handler cfg (\<lambda>bucket key. ProbeNotFound) sign now ev"
  by (simp add: presign_handler_def Let_def split: sum.splits)


section \<open>Properties of the multipart parser\<close>

lemma contentOf_drop: "contentOf part headerEnd = drop (headerEnd + 4) part"
proof -
  have "int headerEnd + 4 = int (headerEnd + 4)" by simp
  then show ?thesis
    unfolding contentOf_def by (simp only: slice_to_end)
qed

text \<open>
  The loop of the parser and the reading of the specification give the same segments.
\<close>

lemma collectParts_occurrences:
  "collectParts body boundary idx =
     map (\<lambda>(i, j). slice body (int (i + length (boundaryBuffer boundary))) (int j))
       (zip (idx # spec_occurrences body boundary (idx + length (boundaryBuffer boundary)))
            (spec_occurrences body boundary (idx + length (boundaryBuffer boundary))))"
proof (induction body boundary idx rule: collectParts.induct)
  case (1 body boundary idx)
  show ?case
  proof (cases "indexOf body (boundaryBuffer boundary) (idx + length (boundaryBuffer boundary))")
    case None
    then show ?thesis
      by (simp add: collectParts.simps [of body boundary idx]
          spec_occurrences.simps [of body boundary "idx + length (boundaryBuffer boundary)"])
  next
    case (Some nextIdx)
    from "1.IH" [OF Some] Some show ?thesis
      by (simp add: collectParts.simps [of body boundary idx]
          spec_occurrences.simps [of body boundary "idx + length (boundaryBuffer boundary)"])
  qed
qed

lemma partsOf_spec_segments: "partsOf body boundary = spec_segments body boundary"
proof (cases "indexOf body (boundaryBuffer boundary) 0")
  case None
  then show ?thesis
    by (simp add: partsOf_def spec_segments_def spec_occurrences.simps [of body boundary 0])
next
  case (Some idx)
  then show ?thesis
    by (simp add: partsOf_def spec_segments_def spec_occurrences.simps [of body boundary 0]
        collectParts_occurrences)
qed

text \<open>
  Every position of \<open>spec_occurrences\<close> is one where the boundary pattern stands in the
  buffer.
\<close>

lemma spec_occurrences_sound:
  "i \<in> set (spec_occurrences body boundary off) \<Longrightarrow>
   off \<le> i \<and> i + length (boundaryBuffer boundary) \<le> length body \<and>
   take (length (boundaryBuffer boundary)) (drop i body) = boundaryBuffer boundary"
proof (induction body boundary off rule: spec_occurrences.induct)
  case (1 body boundary off)
  show ?case
  proof (cases "indexOf body (boundaryBuffer boundary) off")
    case None
    with "1.prems" show ?thesis
      by (simp add: spec_occurrences.simps [of body boundary off])
  next
    case (Some k)
    from indexOf_bounds [OF Some] have k: "off \<le> k" 
      "k + length (boundaryBuffer boundary) \<le> length body" by simp_all
    from Some have occ: "take (length (boundaryBuffer boundary)) (drop k body) = boundaryBuffer boundary"
      by (simp add: indexOf_iff)
    from "1.prems" Some have "i = k \<or>
        i \<in> set (spec_occurrences body boundary (k + length (boundaryBuffer boundary)))"
      by (simp add: spec_occurrences.simps [of body boundary off])
    then show ?thesis
    proof
      assume "i = k"
      with k occ show ?thesis by simp
    next
      assume "i \<in> set (spec_occurrences body boundary (k + length (boundaryBuffer boundary)))"
      from "1.IH" [OF Some this] k show ?thesis by simp
    qed
  qed
qed

text \<open>
  No occurrence is missed: wherever the pattern stands at or after the offset, it is at a
  listed position or it overlaps the occurrence listed just before.
\<close>

lemma spec_occurrences_complete:
  "off \<le> m \<Longrightarrow> m \<le> length body \<Longrightarrow>
   take (length (boundaryBuffer boundary)) (drop m body) = boundaryBuffer boundary \<Longrightarrow>
   \<exists>i \<in> set (spec_occurrences body boundary off).
      i \<le> m \<and> m < i + length (boundaryBuffer boundary)"
proof (induction body boundary off rule: spec_occurrences.induct)
  case (1 body boundary off)
  let ?L = "length (boundaryBuffer boundary)"
  show ?case
  proof (cases "indexOf body (boundaryBuffer boundary) off")
    case None
    with "1.prems" show ?thesis
      unfolding indexOf_None_iff by blast
  next
    case (Some k)
    then have first: "\<forall>j. off \<le> j \<and> j < k \<longrightarrow>
        take ?L (drop j body) \<noteq> boundaryBuffer boundary"
      by (simp add: indexOf_iff)
    with "1.prems" have km: "k \<le> m"
      by (meson not_le)
    have occs: "spec_occurrences body boundary off =
        k # spec_occurrences body boundary (k + ?L)"
      using Some by (simp add: spec_occurrences.simps [of body boundary off])
    show ?thesis
    proof (cases "m < k + ?L")
      case True
      with km occs show ?thesis by simp
    next
      case False
      then have "k + ?L \<le> m" by simp
      from "1.IH" [OF Some this "1.prems"(2,3)] occs show ?thesis by auto
    qed
  qed
qed

text \<open>
  The second loop, part by part: a part adds its file, or sets the contributor, or adds
  nothing. So the loop returns the files of the parts in order, and the contributor that
  the last \<open>contributor\<close> field names.
\<close>

lemma processPart_cases:
  "processPart result part =
     (case fileOf part of
        Some f \<Rightarrow> result\<lparr>files := files result @ [f]\<rparr>
      | None \<Rightarrow>
          (case contributorOf part of
             Some c \<Rightarrow> result\<lparr>contributor := c\<rparr>
           | None \<Rightarrow> result))"
  by (simp add: processPart_def fileOf_def contributorOf_def Let_def split: option.splits)

lemma fileOf_excludes_contributor: "fileOf part = Some f \<Longrightarrow> contributorOf part = None"
  by (auto simp: fileOf_def contributorOf_def split: option.splits)

lemma foldl_processPart:
  "foldl processPart result parts =
     \<lparr>files = files result @ List.map_filter fileOf parts,
      contributor = last (contributor result # List.map_filter contributorOf parts)\<rparr>"
proof (induction parts arbitrary: result)
  case Nil
  then show ?case by simp
next
  case (Cons part parts)
  have step: "foldl processPart result (part # parts) =
      \<lparr>files = files (processPart result part) @ List.map_filter fileOf parts,
       contributor = last (contributor (processPart result part) #
                            List.map_filter contributorOf parts)\<rparr>"
    by (simp only: foldl_Cons Cons.IH)
  show ?case
  proof (cases "fileOf part")
    case (Some f)
    from fileOf_excludes_contributor [OF Some] Some
    have "processPart result part = result\<lparr>files := files result @ [f]\<rparr>"
      and "List.map_filter fileOf (part # parts) = f # List.map_filter fileOf parts"
      and "List.map_filter contributorOf (part # parts) = List.map_filter contributorOf parts"
      by (simp_all add: processPart_cases)
    then show ?thesis unfolding step by simp
  next
    case None
    show ?thesis
    proof (cases "contributorOf part")
      case no: None
      with None
      have "processPart result part = result"
        and "List.map_filter fileOf (part # parts) = List.map_filter fileOf parts"
        and "List.map_filter contributorOf (part # parts) = List.map_filter contributorOf parts"
        by (simp_all add: processPart_cases)
      then show ?thesis unfolding step by simp
    next
      case (Some c)
      with None
      have "processPart result part = result\<lparr>contributor := c\<rparr>"
        and "List.map_filter fileOf (part # parts) = List.map_filter fileOf parts"
        and "List.map_filter contributorOf (part # parts) =
               c # List.map_filter contributorOf parts"
        by (simp_all add: processPart_cases)
      then show ?thesis unfolding step by simp
    qed
  qed
qed

text \<open>
  C5. The parser is a total function: it raises nothing. The files it returns are the
  files of the segments between consecutive occurrences of the boundary pattern, in
  order, each with its name, its content type and its data; the contributor is the one
  named by the last such segment that is a \<open>contributor\<close> field, or the default. The
  segments are one fewer than the occurrences: what follows the last occurrence, which
  no later occurrence closes, is not a segment and gives no part. In the instance the
  buffer holds one closed file part and a second one that nothing closes: the first
  file is returned, the second is dropped.
\<close>

theorem parseMultipart_delimited_parts:
  "files (parseMultipart body boundary) =
     List.map_filter fileOf (spec_segments body boundary) \<and>
   contributor (parseMultipart body boundary) =
     last (js ''Memorial_Guest'' # List.map_filter contributorOf (spec_segments body boundary)) \<and>
   partsOf body boundary = spec_segments body boundary \<and>
   length (spec_segments body boundary) = length (spec_occurrences body boundary 0) - 1"
proof -
  have "parseMultipart body boundary =
      \<lparr>files = List.map_filter fileOf (spec_segments body boundary),
       contributor =
         last (js ''Memorial_Guest'' # List.map_filter contributorOf (spec_segments body boundary))\<rparr>"
    unfolding parseMultipart_def partsOf_spec_segments foldl_processPart by simp
  moreover have "length (spec_segments body boundary) =
      length (spec_occurrences body boundary 0) - 1"
    by (simp add: spec_segments_def Let_def)
  ultimately show ?thesis
    by (simp add: partsOf_spec_segments)
qed

theorem parseMultipart_delimited_parts_witness:
  "files (parseMultipart
     (''--X'' @ CRLF @ ''Content-Disposition: form-data; name='' @ [dquote] @ ''f'' @ [dquote] @
      ''; filename='' @ [dquote] @ ''a.png'' @ [dquote] @ CRLF @ ''Content-Type: image/png'' @
      CRLF @ CRLF @ ''hello'' @ CRLF @
      ''--X'' @ CRLF @ ''Content-Disposition: form-data; name='' @ [dquote] @ ''f'' @ [dquote] @
      ''; filename='' @ [dquote] @ ''b.png'' @ [dquote] @ CRLF @ CRLF @ ''wor'') ''X'') =
     [\<lparr>fp_filename = js ''a.png'', fp_contentType = js ''image/png'', fp_data = ''hello''\<rparr>] \<and>
   spec_occurrences
     (''--X'' @ CRLF @ ''Content-Disposition: form-data; name='' @ [dquote] @ ''f'' @ [dquote] @
      ''; filename='' @ [dquote] @ ''a.png'' @ [dquote] @ CRLF @ ''Content-Type: image/png'' @
      CRLF @ CRLF @ ''hello'' @ CRLF @
      ''--X'' @ CRLF @ ''Content-Disposition: form-data; name='' @ [dquote] @ ''f'' @ [dquote] @
      ''; filename='' @ [dquote] @ ''b.png'' @ [dquote] @ CRLF @ CRLF @ ''wor'') ''X'' 0 =
     [0, 99]"
proof -
  let ?B = "''--X'' @ CRLF @ ''Content-Disposition: form-data; name='' @ [dquote] @ ''f'' @ [dquote] @
      ''; filename='' @ [dquote] @ ''a.png'' @ [dquote] @ CRLF @ ''Content-Type: image/png'' @
      CRLF @ CRLF @ ''hello'' @ CRLF @
      ''--X'' @ CRLF @ ''Content-Disposition: form-data; name='' @ [dquote] @ ''f'' @ [dquote] @
      ''; filename='' @ [dquote] @ ''b.png'' @ [dquote] @ CRLF @ CRLF @ ''wor''"
  have "files (parseMultipart ?B ''X'') = List.map_filter fileOf (spec_segments ?B ''X'')"
    using parseMultipart_delimited_parts [of ?B "''X''"] by (rule conjunct1)
  also have "\<dots> =
      [\<lparr>fp_filename = js ''a.png'', fp_contentType = js ''image/png'', fp_data = ''hello''\<rparr>]"
    by code_simp
  finally have "files (parseMultipart ?B ''X'') =
      [\<lparr>fp_filename = js ''a.png'', fp_contentType = js ''image/png'', fp_data = ''hello''\<rparr>]" .
  moreover have "spec_occurrences ?B ''X'' 0 = [0, 99]" by code_simp
  ultimately show ?thesis by (rule conjI)
qed

text \<open>
  C10. For a part with a blank line, the body the parser keeps is the content after the
  blank line without its last two bytes, whatever they are: \<open>take (n - 2)\<close> of the \<open>n\<close>
  bytes, which is empty when \<open>n < 2\<close>. This is the data of a file part, and the bytes
  that are decoded and trimmed for the \<open>contributor\<close> field. In the instance the content
  \<open>hello\<close> does not end with CRLF and decodes as \<open>hel\<close>.
\<close>

theorem processPart_strips_two_bytes:
  assumes "indexOf part (CRLF @ CRLF) 0 = Some headerEnd"
  shows "cleanContent (contentOf part headerEnd) =
           take (length (drop (headerEnd + 4) part) - 2) (drop (headerEnd + 4) part) \<and>
         length (cleanContent (contentOf part headerEnd)) =
           length (drop (headerEnd + 4) part) - 2 \<and>
         (length (drop (headerEnd + 4) part) < 2 \<longrightarrow>
            cleanContent (contentOf part headerEnd) = []) \<and>
         (match_quoted (js (''filename='' @ [dquote]))
            (toString (slice part 0 (int headerEnd))) = Some fname \<longrightarrow>
            map fp_data (files (processPart result part)) =
              map fp_data (files result) @ [cleanContent (contentOf part headerEnd)]) \<and>
         (match_quoted (js (''filename='' @ [dquote]))
            (toString (slice part 0 (int headerEnd))) = None \<and>
          match_quoted (js (''name='' @ [dquote]))
            (toString (slice part 0 (int headerEnd))) = Some (js ''contributor'')
          \<longrightarrow> contributor (processPart result part) =
                or_else (Some (trim (toString (cleanContent (contentOf part headerEnd)))))
                  (js ''Memorial_Guest''))"
proof -
  have 1: "cleanContent (contentOf part headerEnd) =
           take (length (drop (headerEnd + 4) part) - 2) (drop (headerEnd + 4) part)"
    by (simp only: contentOf_drop cleanContent_take)
  have 2: "match_quoted (js (''filename='' @ [dquote]))
            (toString (slice part 0 (int headerEnd))) = Some fname \<longrightarrow>
            map fp_data (files (processPart result part)) =
              map fp_data (files result) @ [cleanContent (contentOf part headerEnd)]"
    using assms by (simp add: processPart_def Let_def)
  have 3: "match_quoted (js (''filename='' @ [dquote]))
            (toString (slice part 0 (int headerEnd))) = None \<and>
          match_quoted (js (''name='' @ [dquote]))
            (toString (slice part 0 (int headerEnd))) = Some (js ''contributor'')
          \<longrightarrow> contributor (processPart result part) =
                or_else (Some (trim (toString (cleanContent (contentOf part headerEnd)))))
                  (js ''Memorial_Guest'')"
    using assms by (simp add: processPart_def Let_def)
  from 1 have 4: "length (cleanContent (contentOf part headerEnd)) =
           length (drop (headerEnd + 4) part) - 2" by simp
  from 1 have 5: "length (drop (headerEnd + 4) part) < 2 \<longrightarrow>
            cleanContent (contentOf part headerEnd) = []" by simp
  from 1 4 5 2 3 show ?thesis by blast
qed

theorem processPart_strips_two_bytes_witness:
  "map fp_data (files (processPart \<lparr>files = [], contributor = js ''Memorial_Guest''\<rparr>
      (CRLF @ ''Content-Disposition: form-data; name='' @ [dquote] @ ''f'' @ [dquote] @
       ''; filename='' @ [dquote] @ ''a.txt'' @ [dquote] @ CRLF @ CRLF @ ''hello''))) =
   [''hel'']"
proof -
  let ?part = "CRLF @ ''Content-Disposition: form-data; name='' @ [dquote] @ ''f'' @ [dquote] @
       ''; filename='' @ [dquote] @ ''a.txt'' @ [dquote] @ CRLF @ CRLF @ ''hello''"
  let ?init = "\<lparr>files = [], contributor = js ''Memorial_Guest''\<rparr>"
  have 1: "indexOf ?part (CRLF @ CRLF) 0 = Some 60" by code_simp
  have 2: "match_quoted (js (''filename='' @ [dquote])) (toString (slice ?part 0 (int 60))) =
             Some (js ''a.txt'')"
    by code_simp
  have 3: "cleanContent (contentOf ?part 60) = ''hel''"
    by code_simp
  from processPart_strips_two_bytes [OF 1, where fname = "js ''a.txt''" and result = ?init] 2
  have "map fp_data (files (processPart ?init ?part)) =
          map fp_data (files ?init) @ [cleanContent (contentOf ?part 60)]"
    by blast
  then show ?thesis unfolding 3 by simp
qed

text \<open>
  A \<open>contributor\<close> field whose value ends with a no-break space (the bytes C2 A0) before
  the CRLF: the CRLF is cut, the text is decoded and the no-break space is trimmed.
\<close>

lemma processPart_contributor_example:
  "contributor (processPart \<lparr>files = [], contributor = js ''Memorial_Guest''\<rparr>
      (CRLF @ ''Content-Disposition: form-data; name='' @ [dquote] @ ''contributor'' @ [dquote] @
       CRLF @ CRLF @ ''Ann'' @ [CHR 0xC2, CHR 0xA0] @ CRLF)) = js ''Ann''"
  by code_simp

section \<open>Properties of the push-ingestion handlers\<close>

text \<open>
  On the code units of a request string the replacement in the upload loop is the one
  of the upload-credential handler.
\<close>

lemma safe_char_ascii: "safe_char c \<Longrightarrow> (of_char c :: int) < 128"
  by (auto simp: safe_char_def safe_chars_def)

lemma safeFilename_units_js: "safeFilename_units (js s) = safeFilename s"
  by (auto simp: safeFilename_units_def safeFilename_def js_def dest: safe_char_ascii)

lemma show_nat_0: "show_nat 0 = ''0''"
  by code_simp

text \<open>
  With no file part in the decoded payload, the handler that parses the payload itself
  answers 200 without writing; the handler that uses busboy answers 400.
\<close>

lemma upload_handler_no_files:
  assumes "httpMethod ev = ''POST''" and "configured cfg"
    and "ev_headers ev ''content-type'' = Some ct" and "includes_str ct ''multipart/form-data''"
    and "ev_body ev = Inr buf"
    and "files (parseMultipart buf (boundaryText (boundaryOf ct))) = []"
  shows "upload_handler cfg put now ev =
           (respond 200 (UploadedBody ''0 photo(s) uploaded successfully'' []), [])"
proof -
  from assms(4) have "ct \<noteq> []"
    by (auto simp: includes_str_def indexOf_def)
  with assms show ?thesis
    by (simp add: upload_handler_def uploadFiles_def Let_def show_nat_0)
qed

lemma upload_handler_busboy_no_files:
  assumes "httpMethod ev = ''POST''" and "configured cfg" and "bb_parsed ev = Inr ([], form)"
  shows "upload_handler_busboy cfg put now ev =
           (respond 400 (ErrorBody ''No files uploaded''), [])"
  using assms by (simp add: upload_handler_busboy_def)

text \<open>
  A file whose name holds a two-byte character: the name is decoded to one code unit,
  which the key replaces by one underscore.
\<close>

lemma upload_handler_decoded_filename:
  "upload_handler
     \<lparr>R2_ACCOUNT_ID = Some ''acct'', R2_ACCESS_KEY_ID = Some ''id'',
      R2_SECRET_ACCESS_KEY = Some ''secret'', R2_BUCKET_NAME = ''family-archive-uploads''\<rparr>
     (\<lambda>bucket key data ct. None)
     ''2024-01-02T03:04:05.678Z''
     \<lparr>httpMethod = ''POST'',
      ev_headers = (\<lambda>h. if h = ''content-type'' then Some ''multipart/form-data; boundary=X''
                        else None),
      ev_body = Inr (''--X'' @ CRLF @ ''Content-Disposition: form-data; name='' @ [dquote] @
          ''f'' @ [dquote] @ ''; filename='' @ [dquote] @ [CHR 0xC3, CHR 0xA9] @ ''.png'' @
          [dquote] @ CRLF @ CRLF @ ''hi'' @ CRLF @ ''--X--'' @ CRLF)\<rparr> =
   (respond 200
      (UploadedBody ''1 photo(s) uploaded successfully''
         [\<lparr>uf_filename = [0xE9] @ js ''.png'',
           uf_objectKey = ''Memorial_Guest_UPLOADS/2024-01-02T03-04-05__.png'',
           uf_size = 2\<rparr>]),
    [PutObject ''family-archive-uploads'' ''Memorial_Guest_UPLOADS/2024-01-02T03-04-05__.png''
       ''hi'' (js ''application/octet-stream'')])"
  by code_simp

text \<open>
  C2. Run on a multipart payload that holds one form field and no file part, the handler
  that parses the payload itself answers 200 with the message
  \<open>0 photo(s) uploaded successfully\<close> and an empty list of files, not 400 with
  \<open>No files uploaded\<close>. It makes no call to the storage service.
\<close>

theorem upload_handler_zero_files_succeeds:
  "upload_handler
     \<lparr>R2_ACCOUNT_ID = Some ''acct'', R2_ACCESS_KEY_ID = Some ''id'',
      R2_SECRET_ACCESS_KEY = Some ''secret'', R2_BUCKET_NAME = ''family-archive-uploads''\<rparr>
     (\<lambda>bucket key data ct. None)
     ''2024-01-02T03:04:05.678Z''
     \<lparr>httpMethod = ''POST'',
      ev_headers = (\<lambda>h. if h = ''content-type'' then Some ''multipart/form-data; boundary=X''
                        else None),
      ev_body = Inr (''--X'' @ CRLF @ ''Content-Disposition: form-data; name='' @ [dquote] @
          ''contributor'' @ [dquote] @ CRLF @ CRLF @ ''Ann'' @ CRLF @ ''--X--'' @ CRLF)\<rparr> =
   (respond 200 (UploadedBody ''0 photo(s) uploaded successfully'' []), [])"
  by code_simp

theorem upload_handler_zero_files_succeeds_witness:
  "statusCode (fst (upload_handler
     \<lparr>R2_ACCOUNT_ID = Some ''acct'', R2_ACCESS_KEY_ID = Some ''id'',
      R2_SECRET_ACCESS_KEY = Some ''secret'', R2_BUCKET_NAME = ''family-archive-uploads''\<rparr>
     (\<lambda>bucket key data ct. None)
     ''2024-01-02T03:04:05.678Z''
     \<lparr>httpMethod = ''POST'',
      ev_headers = (\<lambda>h. if h = ''content-type'' then Some ''multipart/form-data; boundary=X''
                        else None),
      ev_body = Inr (''--X'' @ CRLF @ ''Content-Disposition: form-data; name='' @ [dquote] @
          ''contributor'' @ [dquote] @ CRLF @ CRLF @ ''Ann'' @ CRLF @ ''--X--'' @ CRLF)\<rparr>)) =
   200"
  by (simp only: upload_handler_zero_files_succeeds fst_conv respond_def response.simps)


section \<open>Properties of the gallery handler\<close>

text \<open>
  When the service returns the pages given, the loop requests one page after the other
  with the marker of the page before, and returns the objects of all of them in order.
\<close>

lemma listAll_pages:
  "pages_served send bucket token pages \<Longrightarrow>
   listAll send bucket acc calls token =
     Some (Inr (acc @ concat (map objectsOf pages)),
           calls @ map (ListObjectsV2 bucket 1000) (token # map nextToken (butlast pages)))"
proof (induction send bucket token pages arbitrary: acc calls rule: pages_served.induct)
  case (1 send bucket token)
  then show ?case by simp
next
  case (2 send bucket token p)
  then show ?case
    by (subst listAll.simps) (simp add: nextToken_def objectsOf_def Let_def)
next
  case (3 send bucket token p q ps)
  from "3.prems" have p: "send bucket 1000 token = Inr p" "truthy (nextToken p)"
    and rest: "pages_served send bucket (nextToken p) (q # ps)" by simp_all
  have "listAll send bucket acc calls token =
        listAll send bucket (acc @ objectsOf p) (calls @ [ListObjectsV2 bucket 1000 token])
          (nextToken p)"
    using p by (subst listAll.simps) (simp add: nextToken_def objectsOf_def Let_def)
  also have "\<dots> = Some (Inr ((acc @ objectsOf p) @ concat (map objectsOf (q # ps))),
      (calls @ [ListObjectsV2 bucket 1000 token]) @
      map (ListObjectsV2 bucket 1000) (nextToken p # map nextToken (butlast (q # ps))))"
    by (rule "3.IH" [OF rest])
  finally show ?case by simp
qed

text \<open>
  C4. For every sequence of pages that the service returns (each page but the last
  reports a continuation marker, the last reports none), the enumeration started without
  a token returns; it has requested the pages one by one, each request carrying the
  marker of the page before, and its result is the concatenation of the objects of all
  the pages, in order. The instance is one truncated page followed by one final page.
\<close>

theorem listAll_concatenates_pages:
  assumes "pages_served send bucket None pages"
  shows "listAll send bucket [] [] None =
           Some (Inr (concat (map objectsOf pages)),
                 map (ListObjectsV2 bucket 1000) (None # map nextToken (butlast pages)))"
  using listAll_pages [OF assms, of "[]" "[]"] by simp

theorem listAll_concatenates_pages_witness:
  "listAll
     (\<lambda>bucket maxKeys token.
        if token = None then
          Inr \<lparr>Contents = Some [\<lparr>Key = ''a/1.jpg'', Size = 1, LastModified = ''d1''\<rparr>,
                                 \<lparr>Key = ''a/2.jpg'', Size = 2, LastModified = ''d2''\<rparr>],
               IsTruncated = True, NextContinuationToken = Some ''t1''\<rparr>
        else if token = Some ''t1'' then
          Inr \<lparr>Contents = Some [\<lparr>Key = ''b/3.png'', Size = 3, LastModified = ''d3''\<rparr>],
               IsTruncated = False, NextContinuationToken = None\<rparr>
        else Inl ''InvalidToken'')
     ''family-archive-uploads'' [] [] None =
   Some (Inr [\<lparr>Key = ''a/1.jpg'', Size = 1, LastModified = ''d1''\<rparr>,
              \<lparr>Key = ''a/2.jpg'', Size = 2, LastModified = ''d2''\<rparr>,
              \<lparr>Key = ''b/3.png'', Size = 3, LastModified = ''d3''\<rparr>],
         [ListObjectsV2 ''family-archive-uploads'' 1000 None,
          ListObjectsV2 ''family-archive-uploads'' 1000 (Some ''t1'')])"
  using listAll_concatenates_pages [of
     "\<lambda>bucket maxKeys token.
        if token = None then
          Inr \<lparr>Contents = Some [\<lparr>Key = ''a/1.jpg'', Size = 1, LastModified = ''d1''\<rparr>,
                                 \<lparr>Key = ''a/2.jpg'', Size = 2, LastModified = ''d2''\<rparr>],
               IsTruncated = True, NextContinuationToken = Some ''t1''\<rparr>
        else if token = Some ''t1'' then
          Inr \<lparr>Contents = Some [\<lparr>Key = ''b/3.png'', Size = 3, LastModified = ''d3''\<rparr>],
               IsTruncated = False, NextContinuationToken = None\<rparr>
        else Inl ''InvalidToken''"
     "''family-archive-uploads''"
     "[\<lparr>Contents = Some [\<lparr>Key = ''a/1.jpg'', Size = 1, LastModified = ''d1''\<rparr>,
                                 \<lparr>Key = ''a/2.jpg'', Size = 2, LastModified = ''d2''\<rparr>],
               IsTruncated = True, NextContinuationToken = Some ''t1''\<rparr>,
       \<lparr>Contents = Some [\<lparr>Key = ''b/3.png'', Size = 3, LastModified = ''d3''\<rparr>],
               IsTruncated = False, NextContinuationToken = None\<rparr>]"]
  by (simp add: nextToken_def objectsOf_def)

text \<open>
  What a 200 response of the gallery lists: the keys of the first 50 entries of the
  shuffled filtered listing, in that order.
\<close>

lemma gallery_handler_photos:
  assumes "gallery_handler cfg send sign rnd ev = Some (r, calls)"
    and "resp_body r = GalleryBody photos n"
  shows "\<exists>allObjects calls0.
           listAll send (R2_BUCKET_NAME cfg) [] [] None = Some (Inr allObjects, calls0) \<and>
           map gi_key photos = map Key (slice (shuffleArray rnd (mediaFiles allObjects)) 0 50) \<and>
           n = length photos"
proof -
  have g: "httpMethod ev = ''GET''" "configured cfg"
    using assms by (auto simp: gallery_handler_def respond_def split: if_splits)
  then have o: "httpMethod ev \<noteq> ''OPTIONS''" by auto
  show ?thesis
  proof (cases "listAll send (R2_BUCKET_NAME cfg) [] [] None")
    case None
    with assms(1) g o show ?thesis by (simp add: gallery_handler_def)
  next
    case (Some a)
    obtain res calls0 where a: "a = (res, calls0)" by (cases a)
    show ?thesis
    proof (cases res)
      case (Inl err)
      with assms g o Some a show ?thesis
        by (auto simp: gallery_handler_def respond_def)
    next
      case (Inr allObjects)
      obtain sres calls' where
        s: "signAll cfg sign (slice (shuffleArray rnd (mediaFiles allObjects)) 0 50) =
              (sres, calls')"
        by (cases "signAll cfg sign (slice (shuffleArray rnd (mediaFiles allObjects)) 0 50)")
      show ?thesis
      proof (cases sres)
        case (Inl err)
        with assms g o Some a Inr s show ?thesis
          by (auto simp: gallery_handler_def respond_def Let_def)
      next
        case ps: (Inr ps)
        with assms g o Some a Inr s have "photos = ps" "n = length ps"
          by (auto simp: gallery_handler_def respond_def Let_def)
        with signAll_keys [OF s [unfolded ps]] Some a Inr show ?thesis by simp
      qed
    qed
  qed
qed

lemma sample_take: "slice xs 0 50 = take 50 xs"
  using slice_from_zero [of xs 50] by simp

lemma length_sample: "length (slice xs 0 50) = min (length xs) 50"
  by (simp add: sample_take)

lemma set_sample: "set (slice xs 0 50) \<subseteq> set xs"
  by (simp add: sample_take set_take_subset)

lemma example_listAll:
  "listAll example_listing (R2_BUCKET_NAME example_cfg) [] [] None =
     Some (Inr (concat (map objectsOf example_pages)),
           [ListObjectsV2 ''family-archive-uploads'' 1000 None,
            ListObjectsV2 ''family-archive-uploads'' 1000 (Some ''t1'')])"
proof -
  have "pages_served example_listing (R2_BUCKET_NAME example_cfg) None example_pages"
    by (simp add: example_pages_def example_listing_def nextToken_def)
  from listAll_pages [OF this, of "[]" "[]"] show ?thesis
    by (simp add: example_pages_def example_cfg_def nextToken_def)
qed

lemma example_sample:
  "signAll example_cfg example_signer
     (slice (shuffleArray (\<lambda>i. 0) (mediaFiles (concat (map objectsOf example_pages)))) 0 50) =
   (Inr [example_photo], [SignGetObject ''family-archive-uploads'' ''Ann_UPLOADS/1.JPG''])"
  by code_simp

lemma gallery_example:
  "gallery_handler example_cfg example_listing example_signer (\<lambda>i. 0) \<lparr>httpMethod = ''GET''\<rparr> =
   Some (respond 200 (GalleryBody [example_photo] 1),
         [ListObjectsV2 ''family-archive-uploads'' 1000 None,
          ListObjectsV2 ''family-archive-uploads'' 1000 (Some ''t1''),
          SignGetObject ''family-archive-uploads'' ''Ann_UPLOADS/1.JPG''])"
proof -
  have "configured example_cfg" by (simp add: configured_def example_cfg_def)
  then show ?thesis
    unfolding gallery_handler_def
    by (simp add: example_listAll example_sample)
qed

text \<open>
  C6. The filter keeps an object exactly when its lowercased key ends with one of the
  ten extensions, does not start with an underscore and does not contain \<open>manifest\<close>.
  Every photo of a gallery response has such a key: no excluded key appears. (The
  draws of the shuffle are indices from 0 to \<open>i\<close>, as \<open>Math.random\<close> gives.)
\<close>

theorem gallery_only_media:
  assumes "\<forall>i. rnd i \<le> i"
    and "gallery_handler cfg send sign rnd ev = Some (r, calls)"
    and "resp_body r = GalleryBody photos n"
    and "p \<in> set photos"
  shows "(obj \<in> set (mediaFiles allObjects) \<longleftrightarrow>
            obj \<in> set allObjects \<and>
            list_ex (\<lambda>ext. endsWith (toLowerCase (Key obj)) ext) mediaExtensions \<and>
            \<not> startsWith (toLowerCase (Key obj)) ''_'' \<and>
            \<not> includes_str (toLowerCase (Key obj)) ''manifest'') \<and>
         list_ex (\<lambda>ext. endsWith (toLowerCase (gi_key p)) ext) mediaExtensions \<and>
         \<not> startsWith (toLowerCase (gi_key p)) ''_'' \<and>
         \<not> includes_str (toLowerCase (gi_key p)) ''manifest''"
proof -
  have filter: "obj \<in> set (mediaFiles allObjects) \<longleftrightarrow>
            obj \<in> set allObjects \<and>
            list_ex (\<lambda>ext. endsWith (toLowerCase (Key obj)) ext) mediaExtensions \<and>
            \<not> startsWith (toLowerCase (Key obj)) ''_'' \<and>
            \<not> includes_str (toLowerCase (Key obj)) ''manifest''"
    by (simp add: mediaFiles_def isMedia_iff)
  from gallery_handler_photos [OF assms(2,3)] obtain listed where
    keys: "map gi_key photos = map Key (slice (shuffleArray rnd (mediaFiles listed)) 0 50)"
    by blast
  from assms(4) have "gi_key p \<in> set (map gi_key photos)" by simp
  then have "gi_key p \<in> set (map Key (slice (shuffleArray rnd (mediaFiles listed)) 0 50))"
    by (simp only: keys)
  then obtain o' where o': "o' \<in> set (slice (shuffleArray rnd (mediaFiles listed)) 0 50)"
    and k: "gi_key p = Key o'" by auto
  have "set (slice (shuffleArray rnd (mediaFiles listed)) 0 50) \<subseteq>
        set (shuffleArray rnd (mediaFiles listed))"
    by (rule set_sample)
  with o' have "o' \<in> set (shuffleArray rnd (mediaFiles listed))" by (rule subsetD [rotated])
  moreover have "set (shuffleArray rnd (mediaFiles listed)) = set (mediaFiles listed)"
    using mset_shuffleArray [OF assms(1)] by (rule mset_eq_setD)
  ultimately have "o' \<in> set (mediaFiles listed)" by simp
  then have "isMedia (Key o')" by (simp add: mediaFiles_def)
  then have "isMedia (gi_key p)" by (simp only: k)
  then have "list_ex (\<lambda>ext. endsWith (toLowerCase (gi_key p)) ext) mediaExtensions \<and>
         \<not> startsWith (toLowerCase (gi_key p)) ''_'' \<and>
         \<not> includes_str (toLowerCase (gi_key p)) ''manifest''"
    by (rule iffD1 [OF isMedia_iff])
  with filter show ?thesis by (rule conjI)
qed

theorem gallery_only_media_witness:
  "list_ex (\<lambda>ext. endsWith (toLowerCase (gi_key example_photo)) ext) mediaExtensions \<and>
   \<not> startsWith (toLowerCase (gi_key example_photo)) ''_'' \<and>
   \<not> includes_str (toLowerCase (gi_key example_photo)) ''manifest''"
proof -
  have rnd: "\<forall>i::nat. (\<lambda>i. 0::nat) i \<le> i" by simp
  have r: "resp_body (respond 200 (GalleryBody [example_photo] 1)) = GalleryBody [example_photo] 1"
    by (simp add: respond_def)
  have p: "example_photo \<in> set [example_photo]" by simp
  from gallery_only_media [OF rnd gallery_example r p]
  show ?thesis by (rule conjunct2)
qed

text \<open>
  A run of the handler on a listing that returns and a signer that always succeeds, and
  the run on the bucket of sixty media files with draws that leave every entry in place:
  all sixty pass the filter and the response lists the first fifty.
\<close>

lemma allSettled_all:
  "allSettled (map (\<lambda>x. Inr (f x)) xs) = Inr (map f xs)"
  by (induction xs) simp_all

lemma gallery_handler_run:
  assumes "httpMethod ev = ''GET''" and "configured cfg"
    and "listAll send (R2_BUCKET_NAME cfg) [] [] None = Some (Inr allObjects, calls)"
    and "\<forall>k. sign (R2_BUCKET_NAME cfg) k = Inr (url k)"
  shows "gallery_handler cfg send sign rnd ev =
     Some (respond 200
             (GalleryBody
                (map (\<lambda>obj. galleryItem obj (url (Key obj)))
                   (slice (shuffleArray rnd (mediaFiles allObjects)) 0 50))
                (length (slice (shuffleArray rnd (mediaFiles allObjects)) 0 50))),
           calls @ map (\<lambda>obj. SignGetObject (R2_BUCKET_NAME cfg) (Key obj))
                     (slice (shuffleArray rnd (mediaFiles allObjects)) 0 50))"
proof -
  have "signAll cfg sign (slice (shuffleArray rnd (mediaFiles allObjects)) 0 50) =
      (Inr (map (\<lambda>obj. galleryItem obj (url (Key obj)))
              (slice (shuffleArray rnd (mediaFiles allObjects)) 0 50)),
       map (\<lambda>obj. SignGetObject (R2_BUCKET_NAME cfg) (Key obj))
         (slice (shuffleArray rnd (mediaFiles allObjects)) 0 50))"
    by (simp add: signAll_def assms(4) allSettled_all)
  with assms(1-3) show ?thesis
    by (simp add: gallery_handler_def)
qed

lemma shuffle_from_self: "shuffle_from (\<lambda>i. i) k xs = xs"
  by (induction k arbitrary: xs) (simp_all add: Let_def)

lemma shuffleArray_self: "shuffleArray (\<lambda>i. i) xs = xs"
  by (simp add: shuffleArray_def shuffle_from_self)

lemma toLowerCase_sixty:
  "toLowerCase (Key (sixty_object i)) = ''ann_uploads/'' @ replicate (Suc i) (CHR ''x'') @ ''.jpg''"
proof -
  have "toLowerCase ''Ann_UPLOADS/'' = ''ann_uploads/''" by code_simp
  moreover have "toLowerCase ''.jpg'' = ''.jpg''" by code_simp
  moreover have "lower_char (CHR ''x'') = CHR ''x''" by code_simp
  ultimately show ?thesis
    by (simp add: sixty_object_def toLowerCase_def)
qed

lemma isMedia_sixty: "isMedia (Key (sixty_object i))"
proof -
  let ?k = "''ann_uploads/'' @ replicate (Suc i) (CHR ''x'') @ ''.jpg''"
  have "endsWith ?k ''.jpg''"
    unfolding endsWith_iff by (metis append_assoc)
  then have 1: "list_ex (\<lambda>ext. endsWith ?k ext) mediaExtensions"
    by (simp add: mediaExtensions_def)
  have 2: "\<not> startsWith ?k ''_''"
    by (simp add: startsWith_def)
  have 3: "\<not> includes_str ?k ''manifest''"
  proof
    assume "includes_str ?k ''manifest''"
    then obtain a b where "?k = a @ ''manifest'' @ b"
      unfolding includes_str_iff by blast
    then have "CHR ''m'' \<in> set ?k" by (metis in_set_conv_decomp append_Cons)
    then show False by simp
  qed
  from 1 2 3 show ?thesis
    by (simp add: isMedia_iff toLowerCase_sixty)
qed

lemma mediaFiles_sixty: "mediaFiles sixty_objects = sixty_objects"
  by (simp add: mediaFiles_def sixty_objects_def isMedia_sixty)

lemma sixty_listAll:
  "listAll sixty_listing (R2_BUCKET_NAME example_cfg) [] [] None =
     Some (Inr sixty_objects, [ListObjectsV2 ''family-archive-uploads'' 1000 None])"
proof -
  have "pages_served sixty_listing (R2_BUCKET_NAME example_cfg) None
          [\<lparr>Contents = Some sixty_objects, IsTruncated = False, NextContinuationToken = None\<rparr>]"
    by (simp add: sixty_listing_def nextToken_def)
  from listAll_pages [OF this, of "[]" "[]"] show ?thesis
    by (simp add: example_cfg_def objectsOf_def)
qed

lemma sixty_sample: "slice (shuffleArray (\<lambda>i. i) (mediaFiles sixty_objects)) 0 50 = take 50 sixty_objects"
  by (simp add: shuffleArray_self mediaFiles_sixty sample_take)

lemma gallery_sixty:
  "gallery_handler example_cfg sixty_listing example_signer (\<lambda>i. i) \<lparr>httpMethod = ''GET''\<rparr> =
   Some (respond 200
           (GalleryBody
              (map (\<lambda>obj. galleryItem obj (''https://r2/'' @ Key obj)) (take 50 sixty_objects))
              50),
         ListObjectsV2 ''family-archive-uploads'' 1000 None #
         map (\<lambda>obj. SignGetObject ''family-archive-uploads'' (Key obj)) (take 50 sixty_objects))"
proof -
  have c: "configured example_cfg" by (simp add: configured_def example_cfg_def)
  have s: "\<forall>k. example_signer (R2_BUCKET_NAME example_cfg) k = Inr (''https://r2/'' @ k)"
    by (simp add: example_signer_def)
  have b: "R2_BUCKET_NAME example_cfg = ''family-archive-uploads''"
    by (simp add: example_cfg_def)
  have l: "length (take 50 sixty_objects) = 50" by (simp add: sixty_objects_def)
  have "httpMethod \<lparr>httpMethod = ''GET''\<rparr> = ''GET''" by simp
  from gallery_handler_run [where ev = "\<lparr>httpMethod = ''GET''\<rparr>" and cfg = example_cfg
      and send = sixty_listing and sign = example_signer and url = "\<lambda>k. ''https://r2/'' @ k"
      and rnd = "\<lambda>i. i" and allObjects = sixty_objects
      and calls = "[ListObjectsV2 ''family-archive-uploads'' 1000 None]",
      OF this c sixty_listAll s]
  show ?thesis
    unfolding sixty_sample l b by simp
qed

text \<open>
  C7. The photos of a gallery response are at most 50, and \<open>total\<close> is their number;
  the sample taken from a filtered listing has the length of the listing when that is
  below 50, and 50 otherwise. In the instance sixty media files are listed and the
  response holds fifty photos.
\<close>

theorem gallery_at_most_50:
  assumes "gallery_handler cfg send sign rnd ev = Some (r, calls)"
    and "resp_body r = GalleryBody photos n"
  shows "length photos \<le> 50 \<and> n = length photos \<and>
         length (slice (shuffleArray rnd (mediaFiles allObjects)) 0 50) =
           min (length (mediaFiles allObjects)) 50"
proof -
  from gallery_handler_photos [OF assms] obtain listed where
    keys: "map gi_key photos = map Key (slice (shuffleArray rnd (mediaFiles listed)) 0 50)"
    and n: "n = length photos" by blast
  from arg_cong [OF keys, of length]
  have "length photos = length (slice (shuffleArray rnd (mediaFiles listed)) 0 50)"
    by simp
  then have "length photos \<le> 50" by (simp add: length_sample)
  with n show ?thesis by (simp add: length_sample length_shuffleArray)
qed

theorem gallery_at_most_50_witness:
  "length (mediaFiles sixty_objects) = 60 \<and>
   gallery_handler example_cfg sixty_listing example_signer (\<lambda>i. i) \<lparr>httpMethod = ''GET''\<rparr> =
     Some (respond 200
             (GalleryBody
                (map (\<lambda>obj. galleryItem obj (''https://r2/'' @ Key obj)) (take 50 sixty_objects))
                50),
           ListObjectsV2 ''family-archive-uploads'' 1000 None #
           map (\<lambda>obj. SignGetObject ''family-archive-uploads'' (Key obj))
             (take 50 sixty_objects)) \<and>
   length (map (\<lambda>obj. galleryItem obj (''https://r2/'' @ Key obj)) (take 50 sixty_objects)) \<le> 50 \<and>
   length (slice (shuffleArray (\<lambda>i. i) (mediaFiles sixty_objects)) 0 50) = 50"
proof -
  let ?photos = "map (\<lambda>obj. galleryItem obj (''https://r2/'' @ Key obj)) (take 50 sixty_objects)"
  have r: "resp_body (respond 200 (GalleryBody ?photos 50)) = GalleryBody ?photos 50"
    by (simp add: respond_def)
  have m: "length (mediaFiles sixty_objects) = 60"
    unfolding mediaFiles_sixty by (simp add: sixty_objects_def)
  from gallery_at_most_50 [OF gallery_sixty r, where allObjects = sixty_objects]
  have "length ?photos \<le> 50"
    and "length (slice (shuffleArray (\<lambda>i. i) (mediaFiles sixty_objects)) 0 50) =
           min (length (mediaFiles sixty_objects)) 50"
    by blast+
  with m gallery_sixty show ?thesis by simp
qed

end
